theory Spec2Isabelle
  imports Main
begin

section \<open>Packed batches of variable-length sequences (package anyseq, reduce.go)\<close>

subsection \<open>Errors\<close>

text \<open>
  Every way in which the Go code can abort is a value. \<open>DivideByZero\<close>,
  \<open>IndexOutOfRange\<close> and \<open>SliceOutOfRange\<close> are the run-time panics of integer
  division, of indexing a slice and of \<open>Slice(start, end)\<close>; \<open>CannotReAdd\<close> is
  \<^verbatim>\<open>panic("cannot re-add sequences")\<close> and \<open>NotSuperset\<close> is
  \<^verbatim>\<open>panic("argument to Expand must be a superset")\<close>.
\<close>

datatype error = DivideByZero | IndexOutOfRange | SliceOutOfRange | CannotReAdd | NotSuperset

subsection \<open>Data model\<close>

text \<open>
  A \<open>Batch\<close> is the struct with the fields \<open>Packed\<close> and \<open>Present\<close>. The type of
  the packed vector is a parameter: \<open>Batch.Reduce\<close> and \<open>Batch.Expand\<close> work on vectors
  given by their list of elements, \<open>Prune\<close> never looks into the vector and is defined for
  every vector type, also one of object references.
\<close>

record 'v Batch =
  Packed :: 'v
  Present :: "bool list"

text \<open>
  Go's \<open>xs[i]\<close>: a run-time panic outside of the slice.
\<close>

definition index :: "'a list \<Rightarrow> nat \<Rightarrow> error + 'a" where
  "index xs i = (if i < length xs then Inr (xs ! i) else Inl IndexOutOfRange)"

text \<open>
  Modelled from the spec: the method \<open>NumPresent\<close> of \<open>Batch\<close> is declared outside of
  reduce.go. It is the \<open>count(Present, true)\<close> of the data model: the number of true
  entries of the mask, counted by one pass over it.
\<close>

fun count_true :: "bool list \<Rightarrow> nat" where
  "count_true [] = 0"
| "count_true (x # xs) = (if x then Suc (count_true xs) else count_true xs)"

definition NumPresent :: "'v Batch \<Rightarrow> nat" where
  "NumPresent b = count_true (Present b)"

text \<open>
  Modelled from the spec: the flat vector type (package anyvec) is an external collaborator
  with \<open>length()\<close>, \<open>slice(start, end)\<close>, \<open>concat(vectors...)\<close> and
  \<open>makeZeroVector(length)\<close>. A vector is the list of its elements, \<open>Len\<close> is
  \<^const>\<open>length\<close>, \<open>Concat\<close> is \<^const>\<open>concat\<close>, and \<open>Slice\<close> insists on
  \<open>0 \<le> start \<le> end \<le> Len\<close> like a Go slice expression.
\<close>

definition Slice :: "'a list \<Rightarrow> nat \<Rightarrow> nat \<Rightarrow> error + 'a list" where
  "Slice v start end' =
     (if start \<le> end' \<and> end' \<le> length v then Inr (take (end' - start) (drop start v))
      else Inl SliceOutOfRange)"

definition MakeVector :: "nat \<Rightarrow> 'a::zero list" where
  "MakeVector n = replicate n 0"

text \<open>
  The invariant of the data model: \<open>Packed.length == per_sequence_width * count(Present, true)\<close>,
  where the width is derived as \<open>Packed.length / count(Present, true)\<close>. On a batch with no
  present sequence HOL's \<open>div\<close> gives width 0, so the invariant says there that the vector
  is empty.
\<close>

definition per_sequence_width :: "'a list Batch \<Rightarrow> nat" where
  "per_sequence_width b = length (Packed b) div NumPresent b"

definition batch_inv :: "'a list Batch \<Rightarrow> bool" where
  "batch_inv b \<longleftrightarrow> length (Packed b) = per_sequence_width b * NumPresent b"

subsection \<open>Batch.Reduce\<close>

text \<open>
  The loop \<^verbatim>\<open>for i, pres := range present\<close> of \<open>Batch.Reduce\<close>, from slot \<open>i\<close> on, over
  the state \<open>(chunks, chunkStart, chunkSize)\<close>. The integers are natural numbers: they
  start at 0, only grow, and \<open>chunkStart + chunkSize\<close> never passes the length of the
  packed vector (lemma \<open>Reduce_loop_run\<close>), so Go's \<open>int\<close> cannot wrap.
\<close>

fun Reduce_loop ::
  "'a list Batch \<Rightarrow> nat \<Rightarrow> nat \<Rightarrow> bool list \<Rightarrow> 'a list list \<times> nat \<times> nat
     \<Rightarrow> error + ('a list list \<times> nat \<times> nat)" where
  "Reduce_loop b inc i [] st = Inr st"
| "Reduce_loop b inc i (pres # rest) (chunks, chunkStart, chunkSize) =
     (if pres then
        (case index (Present b) i of
           Inl e \<Rightarrow> Inl e
         | Inr bp \<Rightarrow>
             if \<not> bp then Inl CannotReAdd
             else Reduce_loop b inc (Suc i) rest (chunks, chunkStart, chunkSize + inc))
      else
        (case index (Present b) i of
           Inl e \<Rightarrow> Inl e
         | Inr bp \<Rightarrow>
             if bp then
               (if chunkSize > 0 then
                  (case Slice (Packed b) chunkStart (chunkStart + chunkSize) of
                     Inl e \<Rightarrow> Inl e
                   | Inr c \<Rightarrow>
                       Reduce_loop b inc (Suc i) rest
                         (chunks @ [c], chunkStart + chunkSize + inc, 0))
                else Reduce_loop b inc (Suc i) rest (chunks, chunkStart + inc, chunkSize))
             else Reduce_loop b inc (Suc i) rest (chunks, chunkStart, chunkSize)))"

text \<open>
  After either loop: the pending chunk, if any, is sliced and appended, and the chunks are
  concatenated into the new packed vector (the same statements end \<open>Batch.Reduce\<close> and
  \<open>Batch.Expand\<close>).
\<close>

definition finish ::
  "'a list Batch \<Rightarrow> bool list \<Rightarrow> 'a list list \<times> nat \<times> nat \<Rightarrow> error + 'a list Batch" where
  "finish b present st =
     (case st of (chunks, chunkStart, chunkSize) \<Rightarrow>
        if chunkSize > 0 then
          (case Slice (Packed b) chunkStart (chunkStart + chunkSize) of
             Inl e \<Rightarrow> Inl e
           | Inr c \<Rightarrow> Inr \<lparr>Packed = concat (chunks @ [c]), Present = present\<rparr>)
        else Inr \<lparr>Packed = concat chunks, Present = present\<rparr>)"

definition Batch_Reduce :: "'a list Batch \<Rightarrow> bool list \<Rightarrow> error + 'a list Batch" where
  "Batch_Reduce b present =
     (let n = NumPresent b in
      if n = 0 then Inl DivideByZero
      else
        let inc = length (Packed b) div n in
        case Reduce_loop b inc 0 present ([], 0, 0) of
          Inl e \<Rightarrow> Inl e
        | Inr st \<Rightarrow> finish b present st)"

subsection \<open>Batch.Expand\<close>

fun Expand_loop ::
  "'a list Batch \<Rightarrow> nat \<Rightarrow> 'a list \<Rightarrow> nat \<Rightarrow> bool list \<Rightarrow> 'a list list \<times> nat \<times> nat
     \<Rightarrow> error + ('a list list \<times> nat \<times> nat)" where
  "Expand_loop b inc filler i [] st = Inr st"
| "Expand_loop b inc filler i (pres # rest) (chunks, chunkStart, chunkSize) =
     (case index (Present b) i of
        Inl e \<Rightarrow> Inl e
      | Inr bp \<Rightarrow>
          if bp then
            (if \<not> pres then Inl NotSuperset
             else Expand_loop b inc filler (Suc i) rest (chunks, chunkStart, chunkSize + inc))
          else if pres then
            (if chunkSize > 0 then
               (case Slice (Packed b) chunkStart (chunkStart + chunkSize) of
                  Inl e \<Rightarrow> Inl e
                | Inr c \<Rightarrow>
                    Expand_loop b inc filler (Suc i) rest
                      (chunks @ [c] @ [filler], chunkStart + chunkSize, 0))
             else Expand_loop b inc filler (Suc i) rest (chunks @ [filler], chunkStart, chunkSize))
          else Expand_loop b inc filler (Suc i) rest (chunks, chunkStart, chunkSize))"

definition Batch_Expand :: "'a::zero list Batch \<Rightarrow> bool list \<Rightarrow> error + 'a list Batch" where
  "Batch_Expand b present =
     (let n = NumPresent b in
      if n = 0 then Inl DivideByZero
      else
        let inc = length (Packed b) div n;
            filler = MakeVector inc
        in
        case Expand_loop b inc filler 0 present ([], 0, 0) of
          Inl e \<Rightarrow> Inl e
        | Inr st \<Rightarrow> finish b present st)"

subsection \<open>Sequences\<close>

text \<open>
  \<open>Seq\<close> is the interface of a sequence: \<open>Output()\<close> is the list of its batches, one per
  timestep, and \<open>Propagate(u, grad)\<close> updates the gradient accumulator \<open>grad\<close>, whose type
  is the parameter \<open>'g\<close>, or aborts. \<open>Creator()\<close> and \<open>Vars()\<close> are passed through by
  both nodes and are left out. Batches are values: a nil \<open>*Batch\<close> is not modelled.
\<close>

record ('v, 'g) Seq =
  Output :: "'v Batch list"
  Propagate :: "'v Batch list \<Rightarrow> 'g \<Rightarrow> error + 'g"

record ('v, 'g) reduceRes =
  In :: "('v, 'g) Seq"
  Out :: "'v Batch list"

subsection \<open>Reduce on sequences\<close>

text \<open>
  The inner loop of \<open>Reduce\<close>: \<^verbatim>\<open>p[i] = b && x.Present[i]\<close> on the slice \<open>p\<close> made with
  \<open>len(present)\<close> entries. Go's \<open>&&\<close> does not evaluate \<open>x.Present[i]\<close> when \<open>b\<close> is
  false.
\<close>

fun intersect_loop :: "'v Batch \<Rightarrow> nat \<Rightarrow> bool list \<Rightarrow> bool list \<Rightarrow> error + bool list" where
  "intersect_loop x i [] p = Inr p"
| "intersect_loop x i (b # rest) p =
     (if b then
        (case index (Present x) i of
           Inl e \<Rightarrow> Inl e
         | Inr v \<Rightarrow> intersect_loop x (Suc i) rest (p[i := v]))
      else intersect_loop x (Suc i) rest (p[i := False]))"

text \<open>
  The outer loop \<^verbatim>\<open>for i, x := range in\<close>. \<open>out\<close> holds the entries \<open>res.Out[0..i)\<close>
  written so far; at the \<open>break\<close> the result is \<open>res.Out[:i]\<close>, which is \<open>out\<close>.
\<close>

fun Reduce_steps ::
  "bool list \<Rightarrow> 'a list Batch list \<Rightarrow> 'a list Batch list \<Rightarrow> error + 'a list Batch list" where
  "Reduce_steps present [] out = Inr out"
| "Reduce_steps present (x # xs) out =
     (case intersect_loop x 0 present (replicate (length present) False) of
        Inl e \<Rightarrow> Inl e
      | Inr p \<Rightarrow>
          (case Batch_Reduce x p of
             Inl e \<Rightarrow> Inl e
           | Inr r \<Rightarrow>
               if NumPresent r = 0 then Inr out
               else Reduce_steps present xs (out @ [r])))"

definition Reduce :: "('a list, 'g) Seq \<Rightarrow> bool list \<Rightarrow> error + ('a list, 'g) reduceRes" where
  "Reduce s present =
     (case Reduce_steps present (Output s) [] of
        Inl e \<Rightarrow> Inl e
      | Inr out \<Rightarrow> Inr \<lparr>In = s, Out = out\<rparr>)"

text \<open>
  \<open>reduceRes.Propagate\<close>, up to the call of \<open>r.In.Propagate\<close> that ends it, is
  \<open>reduceRes_newU\<close>: the list \<open>newU\<close> that is handed to the input sequence, or the
  abort before the call. The first loop writes \<open>newU[i]\<close> for every \<open>i < len(u)\<close>, in
  order, so \<open>newU\<close> holds the entries written so far and \<open>inOut[i]\<close> guards the index; the
  second loop runs \<open>i\<close> from \<open>len(u)\<close> up to \<open>len(inOut)\<close>.
\<close>

fun Propagate_expand ::
  "'a::zero list Batch list \<Rightarrow> nat \<Rightarrow> 'a list Batch list \<Rightarrow> 'a list Batch list
     \<Rightarrow> error + 'a list Batch list" where
  "Propagate_expand inOut i [] newU = Inr newU"
| "Propagate_expand inOut i (x # rest) newU =
     (case index inOut i of
        Inl e \<Rightarrow> Inl e
      | Inr y \<Rightarrow>
          (case Batch_Expand x (Present y) of
             Inl e \<Rightarrow> Inl e
           | Inr r \<Rightarrow> Propagate_expand inOut (Suc i) rest (newU @ [r])))"

function Propagate_zero ::
  "'a::zero list Batch list \<Rightarrow> nat \<Rightarrow> 'a list Batch list \<Rightarrow> 'a list Batch list" where
  "Propagate_zero inOut i newU =
     (if i < length inOut then
        Propagate_zero inOut (Suc i)
          (newU @ [\<lparr>Packed = MakeVector (length (Packed (inOut ! i))),
                     Present = Present (inOut ! i)\<rparr>])
      else newU)"
  by pat_completeness auto
termination
  by (relation "measure (\<lambda>(inOut, i, newU). length inOut - i)") auto

declare Propagate_zero.simps [simp del]

definition reduceRes_newU ::
  "('a::zero list, 'g) reduceRes \<Rightarrow> 'a list Batch list \<Rightarrow> error + 'a list Batch list" where
  "reduceRes_newU r u =
     (let inOut = Output (In r) in
      case Propagate_expand inOut 0 u [] of
        Inl e \<Rightarrow> Inl e
      | Inr newU \<Rightarrow> Inr (Propagate_zero inOut (length u) newU))"

definition reduceRes_Propagate ::
  "('a::zero list, 'g) reduceRes \<Rightarrow> 'a list Batch list \<Rightarrow> 'g \<Rightarrow> error + 'g" where
  "reduceRes_Propagate r u grad =
     (case reduceRes_newU r u of
        Inl e \<Rightarrow> Inl e
      | Inr newU \<Rightarrow> Propagate (In r) newU grad)"

definition reduceRes_Seq :: "('a::zero list, 'g) reduceRes \<Rightarrow> ('a list, 'g) Seq" where
  "reduceRes_Seq r = \<lparr>Output = Out r, Propagate = reduceRes_Propagate r\<rparr>"

subsection \<open>Prune\<close>

record ('v, 'g) pruneRes =
  In :: "('v, 'g) Seq"
  Out :: "'v Batch list"

fun Prune_mask :: "bool list \<Rightarrow> nat \<Rightarrow> bool list \<Rightarrow> bool list \<Rightarrow> error + bool list" where
  "Prune_mask xPresent j [] newPres = Inr newPres"
| "Prune_mask xPresent j (keep # rest) newPres =
     (if keep then
        (case index xPresent j of
           Inl e \<Rightarrow> Inl e
         | Inr v \<Rightarrow> Prune_mask xPresent (Suc j) rest (newPres @ [v]))
      else Prune_mask xPresent (Suc j) rest newPres)"

fun Prune_loop :: "bool list \<Rightarrow> 'v Batch list \<Rightarrow> 'v Batch list \<Rightarrow> error + 'v Batch list" where
  "Prune_loop first [] out = Inr out"
| "Prune_loop first (x # xs) out =
     (case Prune_mask (Present x) 0 first [] of
        Inl e \<Rightarrow> Inl e
      | Inr newPres \<Rightarrow> Prune_loop first xs (out @ [\<lparr>Packed = Packed x, Present = newPres\<rparr>]))"

fun matchingUp_loop ::
  "'v Batch list \<Rightarrow> nat \<Rightarrow> 'v Batch list \<Rightarrow> 'v Batch list \<Rightarrow> error + 'v Batch list" where
  "matchingUp_loop in' i [] matchingUp = Inr matchingUp"
| "matchingUp_loop in' i (x # rest) matchingUp =
     (case index in' i of
        Inl e \<Rightarrow> Inl e
      | Inr y \<Rightarrow>
          matchingUp_loop in' (Suc i) rest
            (matchingUp @ [\<lparr>Packed = Packed x, Present = Present y\<rparr>]))"

definition pruneRes_Propagate ::
  "('v, 'g) pruneRes \<Rightarrow> 'v Batch list \<Rightarrow> 'g \<Rightarrow> error + 'g" where
  "pruneRes_Propagate p u g =
     (case matchingUp_loop (Output (pruneRes.In p)) 0 u [] of
        Inl e \<Rightarrow> Inl e
      | Inr matchingUp \<Rightarrow> Propagate (pruneRes.In p) matchingUp g)"

definition pruneRes_Seq :: "('v, 'g) pruneRes \<Rightarrow> ('v, 'g) Seq" where
  "pruneRes_Seq p = \<lparr>Output = pruneRes.Out p, Propagate = pruneRes_Propagate p\<rparr>"

definition Prune :: "('v, 'g) Seq \<Rightarrow> error + ('v, 'g) Seq" where
  "Prune s =
     (let sOut = Output s in
      if length sOut = 0 then Inr s
      else
        case Prune_loop (Present (sOut ! 0)) sOut [] of
          Inl e \<Rightarrow> Inl e
        | Inr out \<Rightarrow> Inr (pruneRes_Seq \<lparr>pruneRes.In = s, pruneRes.Out = out\<rparr>))"

subsection \<open>Notions of the specification\<close>

text \<open>
  The remaining definitions are not code of the repository. They say, in the words of the
  specification, what the loops above are to compute, and the lemmas below compare them
  with the loops.

  \<open>mask_subset ps qs\<close>: the masks have the same number of slots, and every slot present
  in \<open>ps\<close> is present in \<open>qs\<close>.
\<close>

definition mask_subset :: "bool list \<Rightarrow> bool list \<Rightarrow> bool" where
  "mask_subset ps qs \<longleftrightarrow> list_all2 (\<lambda>p q. p \<longrightarrow> q) ps qs"

text \<open>
  The data kept by a reduction of the mask \<open>qs\<close> to \<open>ps\<close>, slot by slot: a slot of the
  source owns the next \<open>inc\<close> elements of the packed vector, and they are kept when the
  slot stays.
\<close>

fun reduce_data :: "nat \<Rightarrow> bool list \<Rightarrow> bool list \<Rightarrow> 'a list \<Rightarrow> 'a list" where
  "reduce_data inc (p # ps) (q # qs) v =
     (if q then (if p then take inc v else []) @ reduce_data inc ps qs (drop inc v)
      else reduce_data inc ps qs v)"
| "reduce_data inc ps qs v = []"

text \<open>
  The data of an expansion of the mask \<open>qs\<close> to \<open>ps\<close>, slot by slot: a slot of the source
  brings its \<open>inc\<close> elements, a new slot brings \<open>inc\<close> zeros.
\<close>

fun expand_data :: "nat \<Rightarrow> bool list \<Rightarrow> bool list \<Rightarrow> 'a::zero list \<Rightarrow> 'a list" where
  "expand_data inc (p # ps) (q # qs) v =
     (if q then take inc v @ expand_data inc ps qs (drop inc v)
      else if p then replicate inc 0 @ expand_data inc ps qs v
      else expand_data inc ps qs v)"
| "expand_data inc ps qs v = []"

text \<open>
  The intersected mask \<open>p_t[i] = present[i] AND Present[i]\<close>, and the number of timesteps
  before the first one whose intersected mask has no true entry.
\<close>

definition mask_and :: "bool list \<Rightarrow> bool list \<Rightarrow> bool list" where
  "mask_and present xPresent = map2 (\<and>) present xPresent"

definition emitted :: "bool list \<Rightarrow> 'v Batch list \<Rightarrow> nat" where
  "emitted present xs =
     length (takeWhile (\<lambda>x. count_true (mask_and present (Present x)) \<noteq> 0) xs)"

text \<open>
  The slots kept by \<open>Prune\<close>: the indices, in order, of the true entries of the first
  timestep's mask.
\<close>

definition kept_slots :: "bool list \<Rightarrow> nat list" where
  "kept_slots first = filter (\<lambda>j. first ! j) [0..<length first]"

text \<open>
  A sequence of given batches with no variable behind it, for the examples: its
  \<open>Propagate\<close> accepts every upstream list and leaves the accumulator as it is.
\<close>

definition ConstSeq :: "'v Batch list \<Rightarrow> ('v, 'g) Seq" where
  "ConstSeq batches = \<lparr>Output = batches, Propagate = (\<lambda>u grad. Inr grad)\<rparr>"

section \<open>The loops compute what the specification describes\<close>

subsection \<open>Lists and slices\<close>

lemma drop_eq_ConsD:
  assumes "drop i xs = q # qs"
  shows "index xs i = Inr q" and "drop (Suc i) xs = qs"
proof -
  from assms have "i < length xs" by (cases "i < length xs") auto
  moreover from assms have "xs ! i = q" by (rule nth_via_drop)
  ultimately show "index xs i = Inr q" by (simp add: index_def)
  have "drop (Suc i) xs = tl (drop i xs)" by (simp add: drop_Suc tl_drop)
  with assms show "drop (Suc i) xs = qs" by simp
qed

lemma drop_drop_add: "drop m (drop n v) = drop (n + m) v"
  by (simp add: add.commute)

lemma take_add_drop:
  "take (sz + inc) (drop cs v) = take sz (drop cs v) @ take inc (drop (cs + sz) v)"
  by (simp only: take_add drop_drop_add)

lemma Slice_in_range:
  "cs + sz \<le> length v \<Longrightarrow> Slice v cs (cs + sz) = Inr (take sz (drop cs v))"
  by (simp add: Slice_def)

subsection \<open>Masks\<close>

lemma mask_subset_nth:
  "mask_subset ps qs \<longleftrightarrow> length ps = length qs \<and> (\<forall>i<length ps. ps ! i \<longrightarrow> qs ! i)"
  by (simp add: mask_subset_def list_all2_conv_all_nth)

lemma mask_superset_conv:
  "list_all2 (\<lambda>p q. q \<longrightarrow> p) ps qs \<longleftrightarrow> mask_subset qs ps"
  by (auto simp: mask_subset_def list_all2_conv_all_nth)

lemma count_true_mono': "list_all2 (\<lambda>p q. p \<longrightarrow> q) ps qs \<Longrightarrow> count_true ps \<le> count_true qs"
  by (induction ps qs rule: list_all2_induct) auto

lemma count_true_mono: "mask_subset ps qs \<Longrightarrow> count_true ps \<le> count_true qs"
  unfolding mask_subset_def by (rule count_true_mono')

lemma count_true_take_run:
  "i + m \<le> length ps \<Longrightarrow> (\<forall>k<m. ps ! (i + k)) \<Longrightarrow>
   count_true (take (i + m) ps) = count_true (take i ps) + m"
proof (induction ps arbitrary: i m)
  case Nil
  then show ?case by simp
next
  case (Cons p ps)
  show ?case
  proof (cases i)
    case 0
    show ?thesis
    proof (cases m)
      case 0
      then show ?thesis using \<open>i = 0\<close> by simp
    next
      case (Suc m')
      from Cons.prems \<open>i = 0\<close> Suc have "\<forall>k<m'. ps ! (0 + k)" and "0 + m' \<le> length ps" and p
        by auto
      with Cons.IH [of 0 m'] \<open>i = 0\<close> Suc show ?thesis by simp
    qed
  next
    case (Suc i')
    with Cons.prems Cons.IH [of i'] show ?thesis by simp
  qed
qed

subsection \<open>The loops of Batch.Reduce and Batch.Expand\<close>

text \<open>
  The invariant of both loops: the chunks collected so far, then the pending chunk
  \<open>Packed[chunkStart, chunkStart + chunkSize)\<close>, then what the remaining slots
  contribute from \<open>chunkStart + chunkSize\<close> on. The third premise says that the
  remaining present slots of the source fit into the packed vector, which keeps every
  \<open>Slice\<close> in range; the loop aborts exactly when a slot violates the precondition.
\<close>

lemma Reduce_loop_run:
  assumes "drop i (Present b) = qs" and "length rest = length qs"
    and "cs + sz + inc * count_true qs \<le> length (Packed b)"
  shows "(list_all2 (\<lambda>p q. p \<longrightarrow> q) rest qs \<longrightarrow>
            (\<exists>st. Reduce_loop b inc i rest (chunks, cs, sz) = Inr st \<and>
               finish b present st =
                 Inr \<lparr>Packed = concat chunks @ take sz (drop cs (Packed b)) @
                        reduce_data inc rest qs (drop (cs + sz) (Packed b)),
                      Present = present\<rparr>)) \<and>
         (\<not> list_all2 (\<lambda>p q. p \<longrightarrow> q) rest qs \<longrightarrow>
            Reduce_loop b inc i rest (chunks, cs, sz) = Inl CannotReAdd)"
  using assms
proof (induction rest arbitrary: i qs chunks cs sz)
  case Nil
  then show ?case by (simp add: finish_def Slice_in_range)
next
  case (Cons pres rest)
  then obtain q qs' where qs: "qs = q # qs'" by (cases qs) auto
  with Cons.prems have ix: "index (Present b) i = Inr q" and dr: "drop (Suc i) (Present b) = qs'"
    by (auto dest: drop_eq_ConsD)
  from Cons.prems qs have len: "length rest = length qs'" by simp
  show ?case
  proof (cases q)
    case True
    note q = True
    show ?thesis
    proof (cases pres)
      case True
      from Cons.prems qs q have sp: "cs + (sz + inc) + inc * count_true qs' \<le> length (Packed b)"
        by simp
      show ?thesis
        using Cons.IH [OF dr len sp, of chunks] True q qs ix
        by (simp add: take_add_drop drop_drop_add add.assoc del: drop_drop)
    next
      case False
      show ?thesis
      proof (cases "sz > 0")
        case True
        from Cons.prems qs q have sp: "(cs + sz + inc) + 0 + inc * count_true qs' \<le> length (Packed b)"
          and sl: "cs + sz \<le> length (Packed b)"
          by simp_all
        show ?thesis
          using Cons.IH [OF dr len sp, of "chunks @ [take sz (drop cs (Packed b))]"] True False q qs ix
          by (simp add: Slice_in_range [OF sl] drop_drop_add add.assoc del: drop_drop)
      next
        case sz: False
        from Cons.prems qs q sz have sp: "(cs + inc) + sz + inc * count_true qs' \<le> length (Packed b)"
          by simp
        show ?thesis
          using Cons.IH [OF dr len sp, of chunks] sz False q qs ix
          by (simp add: drop_drop_add add.assoc del: drop_drop)
      qed
    qed
  next
    case False
    from Cons.prems qs False have sp: "cs + sz + inc * count_true qs' \<le> length (Packed b)"
      by simp
    show ?thesis
      using Cons.IH [OF dr len sp, of chunks] False qs ix
      by (cases pres) simp_all
  qed
qed

lemma Expand_loop_run:
  assumes "drop i (Present b) = qs" and "length rest = length qs"
    and "cs + sz + inc * count_true qs \<le> length (Packed b)"
  shows "(list_all2 (\<lambda>p q. q \<longrightarrow> p) rest qs \<longrightarrow>
            (\<exists>st. Expand_loop b inc (replicate inc 0) i rest (chunks, cs, sz) = Inr st \<and>
               finish b present st =
                 Inr \<lparr>Packed = concat chunks @ take sz (drop cs (Packed b)) @
                        expand_data inc rest qs (drop (cs + sz) (Packed b)),
                      Present = present\<rparr>)) \<and>
         (\<not> list_all2 (\<lambda>p q. q \<longrightarrow> p) rest qs \<longrightarrow>
            Expand_loop b inc (replicate inc 0) i rest (chunks, cs, sz) = Inl NotSuperset)"
  using assms
proof (induction rest arbitrary: i qs chunks cs sz)
  case Nil
  then show ?case by (simp add: finish_def Slice_in_range)
next
  case (Cons pres rest)
  then obtain q qs' where qs: "qs = q # qs'" by (cases qs) auto
  with Cons.prems have ix: "index (Present b) i = Inr q" and dr: "drop (Suc i) (Present b) = qs'"
    by (auto dest: drop_eq_ConsD)
  from Cons.prems qs have len: "length rest = length qs'" by simp
  show ?case
  proof (cases q)
    case True
    from Cons.prems qs True have sp: "cs + (sz + inc) + inc * count_true qs' \<le> length (Packed b)"
      by simp
    show ?thesis
      using Cons.IH [OF dr len sp, of chunks] True qs ix
      by (cases pres) (simp_all add: take_add_drop drop_drop_add add.assoc del: drop_drop)
  next
    case False
    note q = False
    show ?thesis
    proof (cases pres)
      case True
      show ?thesis
      proof (cases "sz > 0")
        case True
        from Cons.prems qs q have sp: "(cs + sz) + 0 + inc * count_true qs' \<le> length (Packed b)"
          and sl: "cs + sz \<le> length (Packed b)"
          by simp_all
        show ?thesis
          using Cons.IH [OF dr len sp, of "chunks @ [take sz (drop cs (Packed b))] @ [replicate inc 0]"]
            True \<open>pres\<close> q qs ix
          by (simp add: Slice_in_range [OF sl])
      next
        case sz: False
        from Cons.prems qs q sz have sp: "cs + sz + inc * count_true qs' \<le> length (Packed b)"
          by simp
        show ?thesis
          using Cons.IH [OF dr len sp, of "chunks @ [replicate inc 0]"] sz True q qs ix
          by simp
      qed
    next
      case False
      from Cons.prems qs q have sp: "cs + sz + inc * count_true qs' \<le> length (Packed b)"
        by simp
      show ?thesis
        using Cons.IH [OF dr len sp, of chunks] False q qs ix
        by simp
    qed
  qed
qed

lemma width_fits: "length (Packed b) div NumPresent b * count_true (Present b) \<le> length (Packed b)"
  by (simp add: NumPresent_def)

lemma width_fits': "per_sequence_width b * count_true (Present b) \<le> length (Packed b)"
  using width_fits [of b] by (simp add: per_sequence_width_def)

lemma Batch_Reduce_run:
  assumes "0 < NumPresent b" and "length present = length (Present b)"
  shows "Batch_Reduce b present =
     (if list_all2 (\<lambda>p q. p \<longrightarrow> q) present (Present b)
      then Inr \<lparr>Packed = reduce_data (per_sequence_width b) present (Present b) (Packed b),
                 Present = present\<rparr>
      else Inl CannotReAdd)"
proof -
  let ?inc = "per_sequence_width b"
  have sp: "0 + 0 + ?inc * count_true (Present b) \<le> length (Packed b)"
    using width_fits [of b] by (simp add: per_sequence_width_def mult.commute)
  have dr: "drop 0 (Present b) = Present b" by simp
  show ?thesis
    using Reduce_loop_run [OF dr assms(2) sp, of "[]" present] assms(1)
    by (auto simp: Batch_Reduce_def Let_def per_sequence_width_def)
qed

lemma Batch_Expand_run:
  assumes "0 < NumPresent b" and "length present = length (Present b)"
  shows "Batch_Expand b present =
     (if list_all2 (\<lambda>p q. q \<longrightarrow> p) present (Present b)
      then Inr \<lparr>Packed = expand_data (per_sequence_width b) present (Present b) (Packed b),
                 Present = present\<rparr>
      else Inl NotSuperset)"
proof -
  let ?inc = "per_sequence_width b"
  have sp: "0 + 0 + ?inc * count_true (Present b) \<le> length (Packed b)"
    using width_fits [of b] by (simp add: per_sequence_width_def mult.commute)
  have dr: "drop 0 (Present b) = Present b" by simp
  show ?thesis
    using Expand_loop_run [OF dr assms(2) sp, of "[]" present] assms(1)
    by (auto simp: Batch_Expand_def Let_def per_sequence_width_def MakeVector_def)
qed

lemma Batch_Reduce_subset:
  assumes "0 < NumPresent b" and "mask_subset present (Present b)"
  shows "Batch_Reduce b present =
    Inr \<lparr>Packed = reduce_data (per_sequence_width b) present (Present b) (Packed b),
         Present = present\<rparr>"
proof -
  from assms(2) have "length present = length (Present b)"
    by (simp add: mask_subset_nth)
  from Batch_Reduce_run [OF assms(1) this] assms(2) show ?thesis
    by (simp add: mask_subset_def)
qed

lemma Batch_Expand_superset:
  assumes "0 < NumPresent b" and "mask_subset (Present b) present"
  shows "Batch_Expand b present =
    Inr \<lparr>Packed = expand_data (per_sequence_width b) present (Present b) (Packed b),
         Present = present\<rparr>"
proof -
  from assms(2) have "length present = length (Present b)"
    by (simp add: mask_subset_nth)
  from Batch_Expand_run [OF assms(1) this] assms(2) show ?thesis
    by (simp add: mask_superset_conv)
qed

subsection \<open>The data of a reduction and of an expansion\<close>

lemma length_reduce_data:
  "list_all2 (\<lambda>p q. p \<longrightarrow> q) ps qs \<Longrightarrow> inc * count_true qs \<le> length v \<Longrightarrow>
   length (reduce_data inc ps qs v) = inc * count_true ps"
proof (induction ps qs arbitrary: v rule: list_all2_induct)
  case Nil
  then show ?case by simp
next
  case (Cons p ps q qs)
  then show ?case by (cases q; cases p) auto
qed

lemma length_expand_data:
  "list_all2 (\<lambda>p q. q \<longrightarrow> p) ps qs \<Longrightarrow> inc * count_true qs \<le> length v \<Longrightarrow>
   length (expand_data inc ps qs v) = inc * count_true ps"
proof (induction ps qs arbitrary: v rule: list_all2_induct)
  case Nil
  then show ?case by simp
next
  case (Cons p ps q qs)
  then show ?case by (cases q; cases p) auto
qed

lemma reduce_expand_data:
  "list_all2 (\<lambda>p q. q \<longrightarrow> p) ps qs \<Longrightarrow> inc * count_true qs \<le> length v \<Longrightarrow>
   reduce_data inc qs ps (expand_data inc ps qs v) = take (inc * count_true qs) v"
proof (induction ps qs arbitrary: v rule: list_all2_induct)
  case Nil
  then show ?case by simp
next
  case (Cons p ps q qs)
  show ?case
  proof (cases q)
    case True
    with Cons.prems have fit: "inc \<le> length v" "inc * count_true qs \<le> length (drop inc v)"
      by simp_all
    have "take (inc + inc * count_true qs) v = take inc v @ take (inc * count_true qs) (drop inc v)"
      by (rule take_add)
    with True Cons.hyps Cons.IH [OF fit(2)] fit(1) show ?thesis
      by (simp add: min_absorb2)
  next
    case False
    with Cons.prems Cons.IH [of v] show ?thesis by (cases p) simp_all
  qed
qed

lemma expand_data_zero_slot:
  "list_all2 (\<lambda>p q. q \<longrightarrow> p) ps qs \<Longrightarrow> inc * count_true qs \<le> length v \<Longrightarrow>
   i < length ps \<Longrightarrow> ps ! i \<Longrightarrow> \<not> qs ! i \<Longrightarrow>
   take inc (drop (inc * count_true (take i ps)) (expand_data inc ps qs v)) = replicate inc 0"
proof (induction ps qs arbitrary: v i rule: list_all2_induct)
  case Nil
  then show ?case by simp
next
  case (Cons p ps q qs)
  show ?case
  proof (cases i)
    case 0
    with Cons.prems show ?thesis by simp
  next
    case (Suc i')
    show ?thesis
    proof (cases q)
      case True
      with Cons.prems have fit: "inc \<le> length v" "inc * count_true qs \<le> length (drop inc v)"
        by simp_all
      from True Cons.hyps have p by simp
      with True Suc Cons.prems Cons.IH [OF fit(2), of i'] fit(1) show ?thesis
        by (simp add: min_absorb2)
    next
      case False
      with Suc Cons.prems Cons.IH [of v i'] show ?thesis
        by (cases p) simp_all
    qed
  qed
qed

lemma expand_data_copy_slot:
  "list_all2 (\<lambda>p q. q \<longrightarrow> p) ps qs \<Longrightarrow> inc * count_true qs \<le> length v \<Longrightarrow>
   i < length ps \<Longrightarrow> qs ! i \<Longrightarrow>
   take inc (drop (inc * count_true (take i ps)) (expand_data inc ps qs v)) =
   take inc (drop (inc * count_true (take i qs)) v)"
proof (induction ps qs arbitrary: v i rule: list_all2_induct)
  case Nil
  then show ?case by simp
next
  case (Cons p ps q qs)
  show ?case
  proof (cases i)
    case 0
    with Cons.prems have "inc \<le> length v" by simp
    with 0 Cons.prems show ?thesis by (simp add: min_absorb2)
  next
    case (Suc i')
    show ?thesis
    proof (cases q)
      case True
      with Cons.prems have fit: "inc \<le> length v" "inc * count_true qs \<le> length (drop inc v)"
        by simp_all
      from True Cons.hyps have p by simp
      with True Suc Cons.prems Cons.IH [OF fit(2), of i'] fit(1) show ?thesis
        by (simp add: min_absorb2 add.commute)
    next
      case False
      with Suc Cons.prems Cons.IH [of v i'] show ?thesis
        by (cases p) simp_all
    qed
  qed
qed

lemma expand_data_copy_run:
  assumes sup: "list_all2 (\<lambda>p q. q \<longrightarrow> p) ps qs" and fit: "inc * count_true qs \<le> length v"
  shows "i + m \<le> length ps \<Longrightarrow> (\<forall>k<m. qs ! (i + k)) \<Longrightarrow>
   take (inc * m) (drop (inc * count_true (take i ps)) (expand_data inc ps qs v)) =
   take (inc * m) (drop (inc * count_true (take i qs)) v)"
proof (induction m)
  case 0
  then show ?case by simp
next
  case (Suc m)
  from sup have len: "length ps = length qs" by (rule list_all2_lengthD)
  from Suc.prems have run: "\<forall>k<m. qs ! (i + k)" and last: "qs ! (i + m)" and lt: "i + m < length ps"
    by auto
  from sup run lt have runp: "\<forall>k<m. ps ! (i + k)"
    by (auto simp: list_all2_conv_all_nth)
  from lt have le: "i + m \<le> length ps" by simp
  have cp: "count_true (take (i + m) ps) = count_true (take i ps) + m"
    using le runp by (rule count_true_take_run)
  have cq: "count_true (take (i + m) qs) = count_true (take i qs) + m"
    using le run len by (simp add: count_true_take_run)
  have slot: "take inc (drop (inc * count_true (take (i + m) ps)) (expand_data inc ps qs v)) =
      take inc (drop (inc * count_true (take (i + m) qs)) v)"
    using sup fit lt last by (rule expand_data_copy_slot)
  have "take (inc * m + inc) (drop (inc * count_true (take i ps)) (expand_data inc ps qs v)) =
        take (inc * m + inc) (drop (inc * count_true (take i qs)) v)"
    unfolding take_add_drop using Suc.IH [OF le run] slot
    by (simp add: cp cq distrib_left)
  then show ?case by (simp add: add.commute)
qed

lemma Batch_Reduce_length:
  assumes "0 < NumPresent b" and "mask_subset present (Present b)"
  shows "\<exists>r. Batch_Reduce b present = Inr r \<and> Present r = present \<and>
           length (Packed r) = per_sequence_width b * count_true present"
  using Batch_Reduce_subset [OF assms] assms(2) width_fits' [of b]
  by (simp add: mask_subset_def length_reduce_data)

lemma Batch_Expand_length:
  assumes "0 < NumPresent b" and "mask_subset (Present b) present"
  shows "\<exists>r. Batch_Expand b present = Inr r \<and> Present r = present \<and>
           length (Packed r) = per_sequence_width b * count_true present"
  using Batch_Expand_superset [OF assms] assms(2) width_fits' [of b]
  by (simp add: mask_superset_conv [symmetric] length_expand_data)

lemma batch_inv_multiple:
  "length (Packed r) = w * count_true (Present r) \<Longrightarrow> batch_inv r"
  by (simp add: batch_inv_def per_sequence_width_def NumPresent_def)

subsection \<open>The loops over the timesteps\<close>

lemma intersect_loop_run:
  "length p = i + length rest \<Longrightarrow> i + length rest \<le> length (Present x) \<Longrightarrow>
   intersect_loop x i rest p = Inr (take i p @ mask_and rest (drop i (Present x)))"
proof (induction rest arbitrary: i p)
  case Nil
  then show ?case by (simp add: mask_and_def)
next
  case (Cons b rest)
  from Cons.prems have i: "i < length (Present x)" "i < length p" by simp_all
  then have ix: "index (Present x) i = Inr (Present x ! i)" by (simp add: index_def)
  have dr: "drop i (Present x) = Present x ! i # drop (Suc i) (Present x)"
    using i(1) by (simp add: Cons_nth_drop_Suc)
  have tk: "\<And>v. take (Suc i) (p[i := v]) = take i p @ [v]"
    using i(2) by (simp add: take_Suc_conv_app_nth)
  from Cons.prems have l: "\<And>v. length (p[i := v]) = Suc i + length rest" "Suc i + length rest \<le> length (Present x)"
    by simp_all
  show ?case
    using Cons.IH [OF l] ix tk
    by (cases b) (simp_all add: dr mask_and_def)
qed

lemma intersect_run:
  "length present \<le> length (Present x) \<Longrightarrow>
   intersect_loop x 0 present (replicate (length present) False) = Inr (mask_and present (Present x))"
  using intersect_loop_run [of "replicate (length present) False" 0 present x] by simp

lemma length_mask_and: "length ps = length qs \<Longrightarrow> length (mask_and ps qs) = length qs"
  by (simp add: mask_and_def)

lemma mask_and_subset: "length ps = length qs \<Longrightarrow> list_all2 (\<lambda>p q. p \<longrightarrow> q) (mask_and ps qs) qs"
  by (simp add: mask_and_def list_all2_conv_all_nth)

lemma Batch_Reduce_mask_and:
  assumes "0 < NumPresent x" and "length present = length (Present x)"
  shows "Batch_Reduce x (mask_and present (Present x)) =
    Inr \<lparr>Packed = reduce_data (per_sequence_width x) (mask_and present (Present x)) (Present x) (Packed x),
         Present = mask_and present (Present x)\<rparr>"
  using Batch_Reduce_run [OF assms(1), of "mask_and present (Present x)"] assms(2)
  by (simp add: length_mask_and mask_and_subset)

lemma Batch_Reduce_InrD:
  assumes "Batch_Reduce x p = Inr r"
  shows "0 < NumPresent x" and "Present r = p"
proof -
  from assms show pos: "0 < NumPresent x"
    by (cases "NumPresent x = 0") (simp_all add: Batch_Reduce_def)
  from assms pos obtain st where "finish x p st = Inr r"
    by (auto simp: Batch_Reduce_def Let_def split: sum.splits)
  then show "Present r = p"
    by (auto simp: finish_def split: prod.splits if_splits sum.splits)
qed

lemma emitted_Cons:
  "emitted present (x # xs) =
     (if count_true (mask_and present (Present x)) \<noteq> 0 then Suc (emitted present xs) else 0)"
  by (simp add: emitted_def)

lemma Reduce_steps_run:
  assumes "\<forall>x\<in>set xs. length (Present x) = length present"
    and "emitted present xs < length xs \<longrightarrow> 0 < NumPresent (xs ! emitted present xs)"
  shows "\<exists>rs. Reduce_steps present xs out = Inr (out @ rs) \<and>
     list_all2 (\<lambda>x r. Batch_Reduce x (mask_and present (Present x)) = Inr r)
       (takeWhile (\<lambda>x. count_true (mask_and present (Present x)) \<noteq> 0) xs) rs"
  using assms
proof (induction xs arbitrary: out)
  case Nil
  then show ?case by simp
next
  case (Cons x xs)
  let ?p = "mask_and present (Present x)"
  from Cons.prems(1) have len: "length present = length (Present x)" by simp
  have isect: "intersect_loop x 0 present (replicate (length present) False) = Inr ?p"
    by (rule intersect_run) (simp add: len)
  have pos: "0 < NumPresent x"
  proof (cases "count_true ?p = 0")
    case True
    with Cons.prems(2) show ?thesis by (simp add: emitted_Cons)
  next
    case False
    from mask_and_subset [OF len] have "count_true ?p \<le> count_true (Present x)"
      by (rule count_true_mono')
    with False show ?thesis by (simp add: NumPresent_def)
  qed
  obtain r where r: "Batch_Reduce x ?p = Inr r" "Present r = ?p"
    using Batch_Reduce_mask_and [OF pos len] by simp
  show ?case
  proof (cases "count_true ?p = 0")
    case True
    with isect r show ?thesis by (simp add: NumPresent_def)
  next
    case False
    from Cons.prems(1) have masks: "\<forall>x\<in>set xs. length (Present x) = length present" by simp
    from Cons.prems(2) False have
      stop: "emitted present xs < length xs \<longrightarrow> 0 < NumPresent (xs ! emitted present xs)"
      by (simp add: emitted_Cons)
    from Cons.IH [OF masks stop, of "out @ [r]"] obtain rs where
      "Reduce_steps present xs (out @ [r]) = Inr (out @ r # rs)"
      "list_all2 (\<lambda>x r. Batch_Reduce x (mask_and present (Present x)) = Inr r)
         (takeWhile (\<lambda>x. count_true (mask_and present (Present x)) \<noteq> 0) xs) rs"
      by auto
    with False isect r show ?thesis by (simp add: NumPresent_def)
  qed
qed

lemma Reduce_steps_sound:
  assumes "\<forall>x\<in>set xs. length (Present x) = length present"
    and "Reduce_steps present xs out = Inr res"
  shows "\<exists>rs. res = out @ rs \<and> length rs \<le> length xs \<and>
     (\<forall>t<length rs. Present (rs ! t) = mask_and present (Present (xs ! t)) \<and> 0 < NumPresent (rs ! t))"
  using assms
proof (induction xs arbitrary: out)
  case Nil
  then show ?case by simp
next
  case (Cons x xs)
  let ?p = "mask_and present (Present x)"
  from Cons.prems have x: "length present = length (Present x)" by simp
  have isect: "intersect_loop x 0 present (replicate (length present) False) = Inr ?p"
    by (rule intersect_run) (simp add: x)
  from Cons.prems(2) isect obtain r where r: "Batch_Reduce x ?p = Inr r"
    by (auto split: sum.splits)
  then have pr: "Present r = ?p" by (rule Batch_Reduce_InrD)
  show ?case
  proof (cases "NumPresent r = 0")
    case True
    with Cons.prems(2) isect r have "res = out" by simp
    then show ?thesis by simp
  next
    case False
    with Cons.prems(2) isect r have run: "Reduce_steps present xs (out @ [r]) = Inr res" by simp
    from Cons.prems have "\<forall>x\<in>set xs. length (Present x) = length present" by simp
    from Cons.IH [OF this run] obtain rs where rs: "res = (out @ [r]) @ rs" "length rs \<le> length xs"
      "\<forall>t<length rs. Present (rs ! t) = mask_and present (Present (xs ! t)) \<and> 0 < NumPresent (rs ! t)"
      by blast
    have "\<forall>t<length (r # rs). Present ((r # rs) ! t) = mask_and present (Present ((x # xs) ! t))
        \<and> 0 < NumPresent ((r # rs) ! t)"
      using rs(3) pr False by (auto simp: nth_Cons split: nat.splits)
    with rs(1,2) show ?thesis by (intro exI [of _ "r # rs"]) simp
  qed
qed

lemma Propagate_expand_run:
  assumes "i + length us \<le> length inOut"
    and "\<forall>k<length us. 0 < NumPresent (us ! k) \<and>
           list_all2 (\<lambda>p q. q \<longrightarrow> p) (Present (inOut ! (i + k))) (Present (us ! k))"
  shows "\<exists>es. Propagate_expand inOut i us newU = Inr (newU @ es) \<and> length es = length us \<and>
           (\<forall>k<length us. Batch_Expand (us ! k) (Present (inOut ! (i + k))) = Inr (es ! k))"
  using assms
proof (induction us arbitrary: i newU)
  case Nil
  then show ?case by simp
next
  case (Cons x us)
  from Cons.prems(1) have ix: "index inOut i = Inr (inOut ! i)" by (simp add: index_def)
  from Cons.prems(2) have x: "0 < NumPresent x"
    "list_all2 (\<lambda>p q. q \<longrightarrow> p) (Present (inOut ! i)) (Present x)"
    by force+
  from x(2) have "length (Present (inOut ! i)) = length (Present x)" by (rule list_all2_lengthD)
  from Batch_Expand_run [OF x(1) this] x(2) obtain e where
    e: "Batch_Expand x (Present (inOut ! i)) = Inr e" by simp
  from Cons.prems have "Suc i + length us \<le> length inOut"
    "\<forall>k<length us. 0 < NumPresent (us ! k) \<and>
           list_all2 (\<lambda>p q. q \<longrightarrow> p) (Present (inOut ! (Suc i + k))) (Present (us ! k))"
    by force+
  from Cons.IH [OF this, of "newU @ [e]"] obtain es where
    es: "Propagate_expand inOut (Suc i) us (newU @ [e]) = Inr (newU @ e # es)" "length es = length us"
      "\<forall>k<length us. Batch_Expand (us ! k) (Present (inOut ! (Suc i + k))) = Inr (es ! k)"
    by auto
  have "\<forall>k<length (x # us). Batch_Expand ((x # us) ! k) (Present (inOut ! (i + k))) = Inr ((e # es) ! k)"
    using e es(3) by (auto simp: nth_Cons split: nat.splits)
  with es(1,2) ix e show ?case by (intro exI [of _ "e # es"]) simp
qed

lemma Propagate_zero_run:
  "i \<le> length inOut \<Longrightarrow>
   Propagate_zero inOut i newU =
     newU @ map (\<lambda>y. \<lparr>Packed = replicate (length (Packed y)) 0, Present = Present y\<rparr>) (drop i inOut)"
proof (induction inOut i newU rule: Propagate_zero.induct)
  case (1 inOut i newU)
  show ?case
  proof (cases "i < length inOut")
    case True
    then have "drop i inOut = inOut ! i # drop (Suc i) inOut" by (simp add: Cons_nth_drop_Suc)
    with True "1.IH" show ?thesis
      by (subst Propagate_zero.simps) (simp add: MakeVector_def)
  next
    case False
    then show ?thesis by (subst Propagate_zero.simps) simp
  qed
qed

lemma Prune_mask_run:
  assumes "drop j first = rest"
    and "\<forall>k\<in>set (filter (\<lambda>k. first ! k) [j..<length first]). k < length xPresent"
  shows "Prune_mask xPresent j rest newPres =
     Inr (newPres @ map (\<lambda>k. xPresent ! k) (filter (\<lambda>k. first ! k) [j..<length first]))"
  using assms
proof (induction rest arbitrary: j newPres)
  case Nil
  then have "length first \<le> j" by simp
  then show ?case by simp
next
  case (Cons keep rest)
  from Cons.prems(1) have j: "j < length first" by (cases "j < length first") auto
  from Cons.prems(1) have keep: "first ! j = keep" by (rule nth_via_drop)
  have dr: "drop (Suc j) first = rest"
    using Cons.prems(1) by (simp add: drop_Suc tl_drop [symmetric])
  have up: "[j..<length first] = j # [Suc j..<length first]"
    using j by (rule upt_conv_Cons)
  from Cons.prems(2) have rest: "\<forall>k\<in>set (filter (\<lambda>k. first ! k) [Suc j..<length first]). k < length xPresent"
    by (simp add: up)
  show ?case
  proof (cases keep)
    case True
    with Cons.prems(2) keep have "j < length xPresent" by (simp add: up)
    then have "index xPresent j = Inr (xPresent ! j)" by (simp add: index_def)
    with True keep Cons.IH [OF dr rest, of "newPres @ [xPresent ! j]"] show ?thesis
      by (simp add: up)
  next
    case False
    with keep Cons.IH [OF dr rest, of newPres] show ?thesis
      by (simp add: up)
  qed
qed

lemma Prune_loop_run:
  assumes "\<forall>x\<in>set xs. \<forall>j\<in>set (kept_slots first). j < length (Present x)"
  shows "Prune_loop first xs out =
     Inr (out @ map (\<lambda>x. \<lparr>Packed = Packed x,
                            Present = map (\<lambda>j. Present x ! j) (kept_slots first)\<rparr>) xs)"
  using assms
proof (induction xs arbitrary: out)
  case Nil
  then show ?case by simp
next
  case (Cons x xs)
  have dr: "drop 0 first = first" by simp
  from Cons.prems have "\<forall>k\<in>set (filter (\<lambda>k. first ! k) [0..<length first]). k < length (Present x)"
    by (simp add: kept_slots_def)
  from Prune_mask_run [OF dr this, of "[]"]
  have m: "Prune_mask (Present x) 0 first [] = Inr (map (\<lambda>j. Present x ! j) (kept_slots first))"
    by (simp add: kept_slots_def)
  from Cons.prems have "\<forall>x\<in>set xs. \<forall>j\<in>set (kept_slots first). j < length (Present x)"
    by simp
  from Cons.IH [OF this] m show ?case by simp
qed

lemma kept_slots_all: "\<forall>p\<in>set first. p \<Longrightarrow> kept_slots first = [0..<length first]"
  by (auto simp: kept_slots_def filter_id_conv)

lemma Reduce_run:
  assumes masks: "\<forall>x\<in>set (Output s). length (Present x) = length present"
    and stop: "emitted present (Output s) < length (Output s) \<longrightarrow>
      0 < NumPresent (Output s ! emitted present (Output s))"
  shows "\<exists>r. Reduce s present = Inr r \<and> reduceRes.In r = s \<and>
            length (reduceRes.Out r) = emitted present (Output s) \<and>
            (\<forall>t<emitted present (Output s).
               count_true (mask_and present (Present (Output s ! t))) \<noteq> 0 \<and>
               Batch_Reduce (Output s ! t) (mask_and present (Present (Output s ! t))) =
                 Inr (reduceRes.Out r ! t)) \<and>
            (emitted present (Output s) < length (Output s) \<longrightarrow>
               count_true (mask_and present (Present (Output s ! emitted present (Output s)))) = 0)"
proof -
  let ?P = "\<lambda>x. count_true (mask_and present (Present x)) \<noteq> 0"
  let ?tw = "takeWhile ?P (Output s)"
  from Reduce_steps_run [OF masks stop, of "[]"] obtain rs where
    rs: "Reduce_steps present (Output s) [] = Inr rs"
    and all: "list_all2 (\<lambda>x r. Batch_Reduce x (mask_and present (Present x)) = Inr r) ?tw rs"
    by auto
  from all have len: "length rs = emitted present (Output s)"
    by (simp add: emitted_def list_all2_lengthD)
  have nth: "\<And>t. t < emitted present (Output s) \<Longrightarrow> ?tw ! t = Output s ! t"
    by (simp add: emitted_def takeWhile_nth)
  have step: "\<forall>t<emitted present (Output s).
      ?P (Output s ! t) \<and>
      Batch_Reduce (Output s ! t) (mask_and present (Present (Output s ! t))) = Inr (rs ! t)"
  proof (intro allI impI)
    fix t assume t: "t < emitted present (Output s)"
    then have "?tw ! t \<in> set ?tw" by (simp add: emitted_def)
    then have "?P (?tw ! t)" by (rule set_takeWhileD [THEN conjunct2])
    moreover from all t have
      "Batch_Reduce (?tw ! t) (mask_and present (Present (?tw ! t))) = Inr (rs ! t)"
      by (simp add: list_all2_conv_all_nth emitted_def)
    ultimately show "?P (Output s ! t) \<and>
      Batch_Reduce (Output s ! t) (mask_and present (Present (Output s ! t))) = Inr (rs ! t)"
      unfolding nth [OF t] by simp
  qed
  have stop: "emitted present (Output s) < length (Output s) \<longrightarrow>
      count_true (mask_and present (Present (Output s ! emitted present (Output s)))) = 0"
    using nth_length_takeWhile [of ?P "Output s"] by (auto simp: emitted_def)
  from rs len step stop show ?thesis by (simp add: Reduce_def)
qed

lemma reduceRes_newU_run:
  assumes exp: "Propagate_expand (Output (reduceRes.In r)) 0 u [] = Inr es"
    and len: "length es = length u" and le: "length u \<le> length (Output (reduceRes.In r))"
  shows "\<exists>newU. reduceRes_newU r u = Inr newU \<and>
      (\<forall>grad. reduceRes_Propagate r u grad = Propagate (reduceRes.In r) newU grad) \<and>
      length newU = length (Output (reduceRes.In r)) \<and>
      (\<forall>t<length u. newU ! t = es ! t) \<and>
      (\<forall>t. length u \<le> t \<and> t < length (Output (reduceRes.In r)) \<longrightarrow>
         newU ! t = \<lparr>Packed = replicate (length (Packed (Output (reduceRes.In r) ! t))) 0,
                     Present = Present (Output (reduceRes.In r) ! t)\<rparr>)"
proof -
  let ?inOut = "Output (reduceRes.In r)"
  let ?z = "\<lambda>y :: 'a list Batch. \<lparr>Packed = replicate (length (Packed y)) (0::'a), Present = Present y\<rparr>"
  let ?newU = "es @ map ?z (drop (length u) ?inOut)"
  have new: "reduceRes_newU r u = Inr ?newU"
    using exp le by (simp add: reduceRes_newU_def Propagate_zero_run del: Propagate_zero.simps)
  then have deleg: "\<forall>grad. reduceRes_Propagate r u grad = Propagate (reduceRes.In r) ?newU grad"
    by (simp add: reduceRes_Propagate_def)
  have l: "length ?newU = length ?inOut" using len le by simp
  have a: "\<forall>t<length u. ?newU ! t = es ! t" using len by (simp add: nth_append)
  have b: "\<forall>t. length u \<le> t \<and> t < length ?inOut \<longrightarrow> ?newU ! t = ?z (?inOut ! t)"
    using len le by (auto simp: nth_append)
  from new deleg l a b show ?thesis by blast
qed

lemma Propagate_expand_sound:
  assumes "Propagate_expand inOut i us newU = Inr res"
  shows "\<exists>es. res = newU @ es \<and> length es = length us \<and>
           (us \<noteq> [] \<longrightarrow> i + length us \<le> length inOut) \<and>
           (\<forall>k<length us. Batch_Expand (us ! k) (Present (inOut ! (i + k))) = Inr (es ! k))"
  using assms
proof (induction us arbitrary: i newU)
  case Nil
  then show ?case by simp
next
  case (Cons x us)
  from Cons.prems have i: "i < length inOut"
    by (cases "i < length inOut") (simp_all add: index_def)
  then have ix: "index inOut i = Inr (inOut ! i)" by (simp add: index_def)
  from Cons.prems ix obtain e where e: "Batch_Expand x (Present (inOut ! i)) = Inr e"
    and run: "Propagate_expand inOut (Suc i) us (newU @ [e]) = Inr res"
    by (auto split: sum.splits)
  from Cons.IH [OF run] obtain es where
    es: "res = (newU @ [e]) @ es" "length es = length us"
      "us \<noteq> [] \<longrightarrow> Suc i + length us \<le> length inOut"
      "\<forall>k<length us. Batch_Expand (us ! k) (Present (inOut ! (Suc i + k))) = Inr (es ! k)"
    by blast
  have "\<forall>k<length (x # us). Batch_Expand ((x # us) ! k) (Present (inOut ! (i + k))) = Inr ((e # es) ! k)"
    using e es(4) by (auto simp: nth_Cons split: nat.splits)
  moreover from i es(3) have "i + length (x # us) \<le> length inOut"
    by (cases us) simp_all
  ultimately show ?case using es(1,2) by (intro exI [of _ "e # es"]) simp
qed

lemma reduceRes_newU_sound:
  assumes "reduceRes_newU r u = Inr newU"
  shows "(\<forall>grad. reduceRes_Propagate r u grad = Propagate (reduceRes.In r) newU grad) \<and>
      length newU = length (Output (reduceRes.In r)) \<and>
      (\<forall>t<length u.
         Batch_Expand (u ! t) (Present (Output (reduceRes.In r) ! t)) = Inr (newU ! t)) \<and>
      (\<forall>t. length u \<le> t \<and> t < length (Output (reduceRes.In r)) \<longrightarrow>
         newU ! t = \<lparr>Packed = replicate (length (Packed (Output (reduceRes.In r) ! t))) 0,
                     Present = Present (Output (reduceRes.In r) ! t)\<rparr>)"
proof -
  let ?inOut = "Output (reduceRes.In r)"
  from assms obtain res where res: "Propagate_expand ?inOut 0 u [] = Inr res"
    by (auto simp: reduceRes_newU_def Let_def split: sum.splits)
  from Propagate_expand_sound [OF this] have
    len: "length res = length u" and le: "length u \<le> length ?inOut"
    and ex: "\<forall>k<length u. Batch_Expand (u ! k) (Present (?inOut ! k)) = Inr (res ! k)"
    by (cases u; simp)+
  from reduceRes_newU_run [OF res len le] assms ex show ?thesis by auto
qed

lemma reduceRes_newU_total:
  assumes built: "Reduce s present = Inr r"
    and masks: "\<forall>x\<in>set (Output s). length (Present x) = length present"
    and ulen: "length u = length (reduceRes.Out r)"
    and ushape: "\<forall>t<length u. Present (u ! t) = Present (reduceRes.Out r ! t)"
  shows "reduceRes.In r = s \<and> (\<exists>newU. reduceRes_newU r u = Inr newU)"
proof -
  from built have steps: "Reduce_steps present (Output s) [] = Inr (reduceRes.Out r)"
    and inp: "reduceRes.In r = s"
    by (auto simp: Reduce_def split: sum.splits)
  from Reduce_steps_sound [OF masks steps] have
    le: "length (reduceRes.Out r) \<le> length (Output s)"
    and out: "\<forall>t<length (reduceRes.Out r).
        Present (reduceRes.Out r ! t) = mask_and present (Present (Output s ! t)) \<and>
        0 < NumPresent (reduceRes.Out r ! t)"
    by auto
  have pre: "\<forall>k<length u. 0 < NumPresent (u ! k) \<and>
      list_all2 (\<lambda>p q. q \<longrightarrow> p) (Present (Output s ! (0 + k))) (Present (u ! k))"
  proof (intro allI impI)
    fix k assume k: "k < length u"
    with ulen le have "Output s ! k \<in> set (Output s)" by simp
    with masks have l: "length present = length (Present (Output s ! k))" by simp
    from k ushape have pu: "Present (u ! k) = Present (reduceRes.Out r ! k)" by simp
    from k ulen out have po: "Present (reduceRes.Out r ! k) = mask_and present (Present (Output s ! k))"
      and no: "0 < NumPresent (reduceRes.Out r ! k)"
      by simp_all
    from pu po have p: "Present (u ! k) = mask_and present (Present (Output s ! k))" by simp
    from pu no have n: "0 < NumPresent (u ! k)" by (simp add: NumPresent_def)
    from mask_and_subset [OF l] have
      "list_all2 (\<lambda>p q. q \<longrightarrow> p) (Present (Output s ! k)) (Present (u ! k))"
      unfolding p by (simp add: list_all2_conv_all_nth)
    with n show "0 < NumPresent (u ! k) \<and>
      list_all2 (\<lambda>p q. q \<longrightarrow> p) (Present (Output s ! (0 + k))) (Present (u ! k))"
      by simp
  qed
  from ulen le have "0 + length u \<le> length (Output s)" by simp
  from Propagate_expand_run [OF this pre, of "[]"] obtain es where
    es: "Propagate_expand (Output s) 0 u [] = Inr es" "length es = length u"
    by auto
  from ulen le have le': "length u \<le> length (Output (reduceRes.In r))" by (simp add: inp)
  from reduceRes_newU_run [OF es(1) [folded inp] es(2) le'] inp
  show ?thesis by blast
qed

lemma Prune_run:
  assumes ne: "Output s \<noteq> []"
    and cover: "\<forall>x\<in>set (Output s). \<forall>j\<in>set (kept_slots (Present (Output s ! 0))). j < length (Present x)"
  shows "\<exists>q. Prune s = Inr q \<and> length (Output q) = length (Output s) \<and>
           (\<forall>t<length (Output s).
              Packed (Output q ! t) = Packed (Output s ! t) \<and>
              Present (Output q ! t) =
                map (\<lambda>j. Present (Output s ! t) ! j) (kept_slots (Present (Output s ! 0))))"
proof -
  let ?first = "Present (Output s ! 0)"
  let ?out = "map (\<lambda>x. \<lparr>Packed = Packed x, Present = map (\<lambda>j. Present x ! j) (kept_slots ?first)\<rparr>)
                (Output s)"
  let ?q = "pruneRes_Seq \<lparr>pruneRes.In = s, pruneRes.Out = ?out\<rparr>"
  from Prune_loop_run [OF cover, of "[]"] ne have "Prune s = Inr ?q"
    by (simp add: Prune_def Let_def)
  moreover have "Output ?q = ?out" by (simp add: pruneRes_Seq_def)
  ultimately show ?thesis by (intro exI [of _ ?q]) simp
qed

lemma Prune_mask_sound:
  assumes "Prune_mask xPresent j rest newPres = Inr res" and "drop j first = rest"
  shows "\<forall>k\<in>set (filter (\<lambda>k. first ! k) [j..<length first]). k < length xPresent"
  using assms
proof (induction rest arbitrary: j newPres)
  case Nil
  then have "length first \<le> j" by simp
  then show ?case by simp
next
  case (Cons keep rest)
  from Cons.prems(2) have j: "j < length first" by (cases "j < length first") auto
  from Cons.prems(2) have keep: "first ! j = keep" by (rule nth_via_drop)
  have dr: "drop (Suc j) first = rest"
    using Cons.prems(2) by (simp add: drop_Suc tl_drop [symmetric])
  have up: "[j..<length first] = j # [Suc j..<length first]"
    using j by (rule upt_conv_Cons)
  show ?case
  proof (cases keep)
    case True
    with Cons.prems(1) have lt: "j < length xPresent"
      by (cases "j < length xPresent") (simp_all add: index_def)
    with True Cons.prems(1) have
      "Prune_mask xPresent (Suc j) rest (newPres @ [xPresent ! j]) = Inr res"
      by (simp add: index_def)
    from Cons.IH [OF this dr] lt show ?thesis by (simp add: up)
  next
    case False
    with Cons.prems(1) have "Prune_mask xPresent (Suc j) rest newPres = Inr res" by simp
    from Cons.IH [OF this dr] False keep show ?thesis by (simp add: up)
  qed
qed

lemma Prune_loop_sound:
  assumes "Prune_loop first xs out = Inr res"
  shows "\<forall>x\<in>set xs. \<forall>j\<in>set (kept_slots first). j < length (Present x)"
  using assms
proof (induction xs arbitrary: out)
  case Nil
  then show ?case by simp
next
  case (Cons x xs)
  from Cons.prems obtain newPres where
    m: "Prune_mask (Present x) 0 first [] = Inr newPres"
    and run: "Prune_loop first xs (out @ [\<lparr>Packed = Packed x, Present = newPres\<rparr>]) = Inr res"
    by (auto split: sum.splits)
  have "drop 0 first = first" by simp
  from Prune_mask_sound [OF m this] have "\<forall>j\<in>set (kept_slots first). j < length (Present x)"
    by (simp add: kept_slots_def)
  with Cons.IH [OF run] show ?case by simp
qed

lemma Prune_sound:
  assumes ne: "Output s \<noteq> []" and q: "Prune s = Inr q"
  shows "length (Output q) = length (Output s) \<and>
           (\<forall>t<length (Output s).
              Packed (Output q ! t) = Packed (Output s ! t) \<and>
              Present (Output q ! t) =
                map (\<lambda>j. Present (Output s ! t) ! j) (kept_slots (Present (Output s ! 0))))"
proof -
  from ne q obtain out where "Prune_loop (Present (Output s ! 0)) (Output s) [] = Inr out"
    by (auto simp: Prune_def Let_def split: sum.splits)
  then have "\<forall>x\<in>set (Output s). \<forall>j\<in>set (kept_slots (Present (Output s ! 0))). j < length (Present x)"
    by (rule Prune_loop_sound)
  from Prune_run [OF ne this] q show ?thesis by auto
qed

section \<open>The claims\<close>

subsection \<open>Division by the number of present sequences\<close>

text \<open>
  Claim C10. \<open>Batch.Reduce\<close> and \<open>Batch.Expand\<close> begin with
  \<open>b.Packed.Len() / b.NumPresent()\<close>. On a batch whose mask has no true entry both abort
  with the division by zero, whatever the mask \<open>present\<close> is (no precondition is checked
  and no slot is read before), so either operation returns a batch only if the source batch
  has at least one present sequence.
\<close>

theorem Batch_ops_divide_by_zero:
  "(NumPresent b = 0 \<longrightarrow>
      Batch_Reduce b present = Inl DivideByZero \<and> Batch_Expand b present = Inl DivideByZero) \<and>
   (\<forall>r. Batch_Reduce b present = Inr r \<longrightarrow> 0 < NumPresent b) \<and>
   (\<forall>r. Batch_Expand b present = Inr r \<longrightarrow> 0 < NumPresent b)"
  by (cases "NumPresent b = 0") (simp_all add: Batch_Reduce_def Batch_Expand_def)

theorem Batch_ops_divide_by_zero_witness:
  "NumPresent \<lparr>Packed = [7::int], Present = [False, False]\<rparr> = 0 \<and>
   Batch_Reduce \<lparr>Packed = [7::int], Present = [False, False]\<rparr> [True] = Inl DivideByZero \<and>
   Batch_Expand \<lparr>Packed = [7::int], Present = [False, False]\<rparr> [True] = Inl DivideByZero"
proof -
  have h: "NumPresent \<lparr>Packed = [7::int], Present = [False, False]\<rparr> = 0"
    by (simp add: NumPresent_def)
  with Batch_ops_divide_by_zero [of "\<lparr>Packed = [7::int], Present = [False, False]\<rparr>" "[True]"]
  show ?thesis by blast
qed

subsection \<open>The two contract violations\<close>

text \<open>
  Claim C4. Let \<open>b\<close> have at least one present slot and \<open>present\<close> as many slots as
  \<open>b.Present\<close>. \<open>Batch.Reduce\<close> aborts with "cannot re-add sequences" if and only if
  some slot is true in \<open>present\<close> and false in \<open>b.Present\<close>; \<open>Batch.Expand\<close> aborts
  with "argument to Expand must be a superset" if and only if some slot is true in
  \<open>b.Present\<close> and false in \<open>present\<close>; where there is no such slot, the operation
  returns a batch.
\<close>

theorem Batch_ops_abort_iff:
  assumes "0 < NumPresent b" and "length present = length (Present b)"
  shows "(Batch_Reduce b present = Inl CannotReAdd \<longleftrightarrow>
            (\<exists>i<length present. present ! i \<and> \<not> Present b ! i)) \<and>
         (Batch_Expand b present = Inl NotSuperset \<longleftrightarrow>
            (\<exists>i<length present. Present b ! i \<and> \<not> present ! i)) \<and>
         (\<not> (\<exists>i<length present. present ! i \<and> \<not> Present b ! i) \<longrightarrow>
            (\<exists>r. Batch_Reduce b present = Inr r)) \<and>
         (\<not> (\<exists>i<length present. Present b ! i \<and> \<not> present ! i) \<longrightarrow>
            (\<exists>r. Batch_Expand b present = Inr r))"
proof -
  have r: "list_all2 (\<lambda>p q. p \<longrightarrow> q) present (Present b) \<longleftrightarrow>
      \<not> (\<exists>i<length present. present ! i \<and> \<not> Present b ! i)"
    using assms(2) by (auto simp: list_all2_conv_all_nth)
  have e: "list_all2 (\<lambda>p q. q \<longrightarrow> p) present (Present b) \<longleftrightarrow>
      \<not> (\<exists>i<length present. Present b ! i \<and> \<not> present ! i)"
    using assms(2) by (auto simp: list_all2_conv_all_nth)
  have R: "Batch_Reduce b present =
      (if \<exists>i<length present. present ! i \<and> \<not> Present b ! i then Inl CannotReAdd
       else Inr \<lparr>Packed = reduce_data (per_sequence_width b) present (Present b) (Packed b),
                  Present = present\<rparr>)"
    unfolding Batch_Reduce_run [OF assms] r by simp
  have E: "Batch_Expand b present =
      (if \<exists>i<length present. Present b ! i \<and> \<not> present ! i then Inl NotSuperset
       else Inr \<lparr>Packed = expand_data (per_sequence_width b) present (Present b) (Packed b),
                  Present = present\<rparr>)"
    unfolding Batch_Expand_run [OF assms] e by simp
  show ?thesis unfolding R E by auto
qed

theorem Batch_ops_abort_iff_witness:
  "0 < NumPresent \<lparr>Packed = [1, 2, 3, 4 :: int], Present = [True, False, True]\<rparr> \<and>
   length [True, True, False] = length (Present \<lparr>Packed = [1, 2, 3, 4 :: int], Present = [True, False, True]\<rparr>) \<and>
   Batch_Reduce \<lparr>Packed = [1, 2, 3, 4 :: int], Present = [True, False, True]\<rparr> [True, True, False]
     = Inl CannotReAdd \<and>
   Batch_Expand \<lparr>Packed = [1, 2, 3, 4 :: int], Present = [True, False, True]\<rparr> [True, True, False]
     = Inl NotSuperset"
proof -
  let ?b = "\<lparr>Packed = [1, 2, 3, 4 :: int], Present = [True, False, True]\<rparr>"
  let ?p = "[True, True, False]"
  have h1: "0 < NumPresent ?b" by (simp add: NumPresent_def)
  have h2: "length ?p = length (Present ?b)" by simp
  have s1: "\<exists>i<length ?p. ?p ! i \<and> \<not> Present ?b ! i"
    by (rule exI [of _ 1]) simp
  have s2: "\<exists>i<length ?p. Present ?b ! i \<and> \<not> ?p ! i"
    by (rule exI [of _ 2]) simp
  from Batch_ops_abort_iff [OF h1 h2] s1 s2 h1 h2 show ?thesis by blast
qed

subsection \<open>No access out of range\<close>

text \<open>
  Claim C9. Let \<open>b\<close> have at least one present slot and \<open>present\<close> as many slots as
  \<open>b.Present\<close>. Neither operation indexes \<open>b.Present\<close> out of bounds or calls
  \<open>Slice(start, end)\<close> outside of \<open>0 \<le> start \<le> end \<le> b.Packed.Len()\<close>: an access
  out of range is the result \<open>IndexOutOfRange\<close> or \<open>SliceOutOfRange\<close> of the model, and
  neither is ever the result. Under its precondition each operation returns a batch. The
  invariant of \<open>b\<close> is not needed: \<open>inc * NumPresent\<close> never exceeds the length of
  the packed vector.
\<close>

theorem Batch_ops_in_range:
  assumes "0 < NumPresent b" and "length present = length (Present b)"
  shows "Batch_Reduce b present \<noteq> Inl IndexOutOfRange \<and>
         Batch_Reduce b present \<noteq> Inl SliceOutOfRange \<and>
         Batch_Expand b present \<noteq> Inl IndexOutOfRange \<and>
         Batch_Expand b present \<noteq> Inl SliceOutOfRange \<and>
         (mask_subset present (Present b) \<longrightarrow> (\<exists>r. Batch_Reduce b present = Inr r)) \<and>
         (mask_subset (Present b) present \<longrightarrow> (\<exists>r. Batch_Expand b present = Inr r))"
proof -
  have "Batch_Reduce b present \<noteq> Inl IndexOutOfRange \<and>
        Batch_Reduce b present \<noteq> Inl SliceOutOfRange \<and>
        (mask_subset present (Present b) \<longrightarrow> (\<exists>r. Batch_Reduce b present = Inr r))"
    unfolding Batch_Reduce_run [OF assms] mask_subset_def by simp
  moreover
  have "Batch_Expand b present \<noteq> Inl IndexOutOfRange \<and>
        Batch_Expand b present \<noteq> Inl SliceOutOfRange \<and>
        (mask_subset (Present b) present \<longrightarrow> (\<exists>r. Batch_Expand b present = Inr r))"
    unfolding Batch_Expand_run [OF assms] mask_superset_conv by simp
  ultimately show ?thesis by blast
qed

theorem Batch_ops_in_range_witness:
  "0 < NumPresent \<lparr>Packed = [1, 2, 3, 4 :: int], Present = [True, False, True]\<rparr> \<and>
   length [False, False, True] = length (Present \<lparr>Packed = [1, 2, 3, 4 :: int], Present = [True, False, True]\<rparr>) \<and>
   mask_subset [False, False, True] (Present \<lparr>Packed = [1, 2, 3, 4 :: int], Present = [True, False, True]\<rparr>) \<and>
   Batch_Reduce \<lparr>Packed = [1, 2, 3, 4 :: int], Present = [True, False, True]\<rparr> [False, False, True]
     \<noteq> Inl SliceOutOfRange \<and>
   Batch_Expand \<lparr>Packed = [1, 2, 3, 4 :: int], Present = [True, False, True]\<rparr> [False, False, True]
     \<noteq> Inl IndexOutOfRange"
proof -
  let ?b = "\<lparr>Packed = [1, 2, 3, 4 :: int], Present = [True, False, True]\<rparr>"
  let ?p = "[False, False, True]"
  have h1: "0 < NumPresent ?b" by (simp add: NumPresent_def)
  have h2: "length ?p = length (Present ?b)" by simp
  have h3: "mask_subset ?p (Present ?b)" by (simp add: mask_subset_def)
  from Batch_ops_in_range [OF h1 h2] h1 h2 h3 show ?thesis by blast
qed

subsection \<open>The length of the result\<close>

text \<open>
  Claim C5, as amended. Let \<open>b\<close> satisfy the invariant and have at least one present
  slot. Under its precondition on \<open>present\<close>, each of \<open>Batch.Reduce\<close> and
  \<open>Batch.Expand\<close> returns a batch whose packed vector has length
  \<open>inc * count(present, true)\<close>, where \<open>inc = b.Packed.Len() / count(b.Present, true)\<close>,
  and which satisfies the invariant.
\<close>

theorem Batch_ops_length:
  assumes "batch_inv b" and "0 < NumPresent b"
  shows "(mask_subset present (Present b) \<longrightarrow>
            (\<exists>r. Batch_Reduce b present = Inr r \<and>
                 length (Packed r) = per_sequence_width b * count_true present \<and> batch_inv r)) \<and>
         (mask_subset (Present b) present \<longrightarrow>
            (\<exists>r. Batch_Expand b present = Inr r \<and>
                 length (Packed r) = per_sequence_width b * count_true present \<and> batch_inv r))"
proof (intro conjI impI)
  assume "mask_subset present (Present b)"
  from Batch_Reduce_length [OF assms(2) this] show
    "\<exists>r. Batch_Reduce b present = Inr r \<and>
       length (Packed r) = per_sequence_width b * count_true present \<and> batch_inv r"
    by (auto intro: batch_inv_multiple)
next
  assume "mask_subset (Present b) present"
  from Batch_Expand_length [OF assms(2) this] show
    "\<exists>r. Batch_Expand b present = Inr r \<and>
       length (Packed r) = per_sequence_width b * count_true present \<and> batch_inv r"
    by (auto intro: batch_inv_multiple)
qed

theorem Batch_ops_length_witness:
  "batch_inv \<lparr>Packed = [1, 2, 3, 4 :: int], Present = [True, False, True]\<rparr> \<and>
   0 < NumPresent \<lparr>Packed = [1, 2, 3, 4 :: int], Present = [True, False, True]\<rparr> \<and>
   mask_subset [False, False, True] (Present \<lparr>Packed = [1, 2, 3, 4 :: int], Present = [True, False, True]\<rparr>) \<and>
   mask_subset (Present \<lparr>Packed = [1, 2, 3, 4 :: int], Present = [True, False, True]\<rparr>) [True, True, True] \<and>
   (\<exists>r. Batch_Reduce \<lparr>Packed = [1, 2, 3, 4 :: int], Present = [True, False, True]\<rparr> [False, False, True]
          = Inr r \<and> length (Packed r) = 2) \<and>
   (\<exists>r. Batch_Expand \<lparr>Packed = [1, 2, 3, 4 :: int], Present = [True, False, True]\<rparr> [True, True, True]
          = Inr r \<and> length (Packed r) = 6)"
proof -
  let ?b = "\<lparr>Packed = [1, 2, 3, 4 :: int], Present = [True, False, True]\<rparr>"
  have w: "per_sequence_width ?b = 2" by code_simp
  have h1: "batch_inv ?b" by code_simp
  have h2: "0 < NumPresent ?b" by (simp add: NumPresent_def)
  have h3: "mask_subset [False, False, True] (Present ?b)" by (simp add: mask_subset_def)
  have h4: "mask_subset (Present ?b) [True, True, True]" by (simp add: mask_subset_def)
  from Batch_ops_length [OF h1 h2, of "[False, False, True]"] h3 w
  have "\<exists>r. Batch_Reduce ?b [False, False, True] = Inr r \<and> length (Packed r) = 2" by auto
  moreover from Batch_ops_length [OF h1 h2, of "[True, True, True]"] h4 w
  have "\<exists>r. Batch_Expand ?b [True, True, True] = Inr r \<and> length (Packed r) = 6" by auto
  ultimately show ?thesis using h1 h2 h3 h4 by blast
qed

text \<open>
  The claim as it was stated speaks of every batch that satisfies the invariant. The batch
  with an empty packed vector and no present slot satisfies it, and the mask with no true
  entry satisfies both preconditions; both operations abort there.
\<close>

theorem Batch_ops_length_no_present_counterexample:
  "batch_inv \<lparr>Packed = ([] :: int list), Present = [False, False]\<rparr> \<and>
   mask_subset [False, False] (Present \<lparr>Packed = ([] :: int list), Present = [False, False]\<rparr>) \<and>
   mask_subset (Present \<lparr>Packed = ([] :: int list), Present = [False, False]\<rparr>) [False, False] \<and>
   Batch_Reduce \<lparr>Packed = ([] :: int list), Present = [False, False]\<rparr> [False, False]
     = Inl DivideByZero \<and>
   Batch_Expand \<lparr>Packed = ([] :: int list), Present = [False, False]\<rparr> [False, False]
     = Inl DivideByZero"
  by (simp add: batch_inv_def per_sequence_width_def NumPresent_def mask_subset_def
      Batch_Reduce_def Batch_Expand_def)

subsection \<open>Round trip\<close>

text \<open>
  Claim C1, as amended. Let \<open>b\<close> satisfy the invariant and have at least one present
  slot, and let \<open>present\<close> be a mask with as many slots that contains \<open>b.Present\<close>.
  Then \<open>Expand(b, present)\<close> returns a batch \<open>e\<close>, and \<open>Reduce(e, b.Present)\<close> returns
  \<open>b\<close>: the same packed vector, element for element, and the same mask.
\<close>

theorem Reduce_Expand_roundtrip:
  assumes inv: "batch_inv b" and pos: "0 < NumPresent b" and sup: "mask_subset (Present b) present"
  shows "\<exists>e. Batch_Expand b present = Inr e \<and> Batch_Reduce e (Present b) = Inr b"
proof -
  let ?inc = "per_sequence_width b"
  let ?e = "\<lparr>Packed = expand_data ?inc present (Present b) (Packed b), Present = present\<rparr>"
  have sup': "list_all2 (\<lambda>p q. q \<longrightarrow> p) present (Present b)"
    using sup by (simp add: mask_superset_conv)
  have ex: "Batch_Expand b present = Inr ?e"
    using pos sup by (rule Batch_Expand_superset)
  have len: "length (Packed ?e) = ?inc * count_true present"
    using sup' width_fits' [of b] by (simp add: length_expand_data)
  from sup have "count_true (Present b) \<le> count_true present" by (rule count_true_mono)
  with pos have pos': "0 < NumPresent ?e" by (simp add: NumPresent_def)
  then have w: "per_sequence_width ?e = ?inc"
    using len by (simp add: per_sequence_width_def NumPresent_def)
  have "mask_subset (Present b) (Present ?e)" using sup by simp
  from Batch_Reduce_subset [OF pos' this]
  have "Batch_Reduce ?e (Present b) =
      Inr \<lparr>Packed = reduce_data ?inc (Present b) present (Packed ?e), Present = Present b\<rparr>"
    unfolding w by simp
  also have "reduce_data ?inc (Present b) present (Packed ?e) =
      take (?inc * count_true (Present b)) (Packed b)"
    using sup' width_fits' [of b] by (simp add: reduce_expand_data)
  also have "\<dots> = Packed b"
    using inv by (simp add: batch_inv_def NumPresent_def)
  finally have "Batch_Reduce ?e (Present b) = Inr b" by simp
  with ex show ?thesis by blast
qed

theorem Reduce_Expand_roundtrip_witness:
  "batch_inv \<lparr>Packed = [1, 2, 3, 4 :: int], Present = [True, False, True]\<rparr> \<and>
   0 < NumPresent \<lparr>Packed = [1, 2, 3, 4 :: int], Present = [True, False, True]\<rparr> \<and>
   mask_subset (Present \<lparr>Packed = [1, 2, 3, 4 :: int], Present = [True, False, True]\<rparr>) [True, True, True] \<and>
   (\<exists>e. Batch_Expand \<lparr>Packed = [1, 2, 3, 4 :: int], Present = [True, False, True]\<rparr> [True, True, True]
          = Inr e \<and>
        Batch_Reduce e [True, False, True] =
          Inr \<lparr>Packed = [1, 2, 3, 4 :: int], Present = [True, False, True]\<rparr>)"
proof -
  let ?b = "\<lparr>Packed = [1, 2, 3, 4 :: int], Present = [True, False, True]\<rparr>"
  have h1: "batch_inv ?b" by code_simp
  have h2: "0 < NumPresent ?b" by (simp add: NumPresent_def)
  have h3: "mask_subset (Present ?b) [True, True, True]" by (simp add: mask_subset_def)
  from Reduce_Expand_roundtrip [OF h1 h2 h3] h1 h2 h3 show ?thesis by simp
qed

text \<open>
  Without a present slot there is no round trip: \<open>Expand\<close> aborts on the batch with an
  empty packed vector and the mask \<open>[false]\<close>, which satisfies the invariant.
\<close>

theorem Reduce_Expand_no_present_counterexample:
  "batch_inv \<lparr>Packed = ([] :: int list), Present = [False]\<rparr> \<and>
   mask_subset (Present \<lparr>Packed = ([] :: int list), Present = [False]\<rparr>) [True] \<and>
   Batch_Expand \<lparr>Packed = ([] :: int list), Present = [False]\<rparr> [True] = Inl DivideByZero"
  by (simp add: batch_inv_def per_sequence_width_def NumPresent_def mask_subset_def Batch_Expand_def)

subsection \<open>Zero filling\<close>

text \<open>
  Claim C6. Let \<open>b\<close> have at least one present slot and let \<open>present\<close> contain
  \<open>b.Present\<close>. In the packed vector of \<open>Expand(b, present)\<close> the chunk of slot \<open>i\<close>
  starts at \<open>inc\<close> times the number of true entries of \<open>present\<close> before \<open>i\<close>. The chunk
  of every slot that is true in \<open>present\<close> and false in \<open>b.Present\<close> is \<open>inc\<close> zeros, and
  every run of \<open>m\<close> slots from \<open>i\<close> on that are present in \<open>b\<close> holds the \<open>inc * m\<close>
  elements that the run has in \<open>b.Packed\<close>. The example of the specification: reducing
  \<open>Present = [true, false, true]\<close>, \<open>Packed = [1, 2, 3, 4]\<close> to \<open>[true, false, false]\<close>
  gives \<open>[1, 2]\<close>, and expanding that back to \<open>[true, false, true]\<close> gives
  \<open>[1, 2, 0, 0]\<close>.
\<close>

theorem Batch_Expand_zero_fill:
  assumes "0 < NumPresent b" and "mask_subset (Present b) present"
  shows "(\<exists>e. Batch_Expand b present = Inr e \<and> Present e = present \<and>
            length (Packed e) = per_sequence_width b * count_true present \<and>
            (\<forall>i<length present. present ! i \<and> \<not> Present b ! i \<longrightarrow>
               take (per_sequence_width b)
                 (drop (per_sequence_width b * count_true (take i present)) (Packed e)) =
               replicate (per_sequence_width b) 0) \<and>
            (\<forall>i m. i + m \<le> length present \<and> (\<forall>k<m. Present b ! (i + k)) \<longrightarrow>
               take (per_sequence_width b * m)
                 (drop (per_sequence_width b * count_true (take i present)) (Packed e)) =
               take (per_sequence_width b * m)
                 (drop (per_sequence_width b * count_true (take i (Present b))) (Packed b)))) \<and>
         Batch_Reduce \<lparr>Packed = [1, 2, 3, 4 :: int], Present = [True, False, True]\<rparr>
           [True, False, False] = Inr \<lparr>Packed = [1, 2], Present = [True, False, False]\<rparr> \<and>
         Batch_Expand \<lparr>Packed = [1, 2 :: int], Present = [True, False, False]\<rparr>
           [True, False, True] = Inr \<lparr>Packed = [1, 2, 0, 0], Present = [True, False, True]\<rparr>"
proof (intro conjI)
  let ?inc = "per_sequence_width b"
  let ?e = "\<lparr>Packed = expand_data ?inc present (Present b) (Packed b), Present = present\<rparr>"
  have sup: "list_all2 (\<lambda>p q. q \<longrightarrow> p) present (Present b)"
    using assms(2) by (simp add: mask_superset_conv)
  have fit: "?inc * count_true (Present b) \<le> length (Packed b)" by (rule width_fits')
  have ex: "Batch_Expand b present = Inr ?e"
    using assms by (rule Batch_Expand_superset)
  have len: "length (Packed ?e) = ?inc * count_true present"
    using sup fit by (simp add: length_expand_data)
  have zero: "\<forall>i<length present. present ! i \<and> \<not> Present b ! i \<longrightarrow>
      take ?inc (drop (?inc * count_true (take i present)) (Packed ?e)) = replicate ?inc 0"
    using sup fit by (simp add: expand_data_zero_slot)
  have copy: "\<forall>i m. i + m \<le> length present \<and> (\<forall>k<m. Present b ! (i + k)) \<longrightarrow>
      take (?inc * m) (drop (?inc * count_true (take i present)) (Packed ?e)) =
      take (?inc * m) (drop (?inc * count_true (take i (Present b))) (Packed b))"
    using expand_data_copy_run [OF sup fit] by simp
  from ex len zero copy show "\<exists>e. Batch_Expand b present = Inr e \<and> Present e = present \<and>
            length (Packed e) = ?inc * count_true present \<and>
            (\<forall>i<length present. present ! i \<and> \<not> Present b ! i \<longrightarrow>
               take ?inc (drop (?inc * count_true (take i present)) (Packed e)) =
               replicate ?inc 0) \<and>
            (\<forall>i m. i + m \<le> length present \<and> (\<forall>k<m. Present b ! (i + k)) \<longrightarrow>
               take (?inc * m) (drop (?inc * count_true (take i present)) (Packed e)) =
               take (?inc * m) (drop (?inc * count_true (take i (Present b))) (Packed b)))"
    by (intro exI [of _ ?e]) simp
next
  show "Batch_Reduce \<lparr>Packed = [1, 2, 3, 4 :: int], Present = [True, False, True]\<rparr>
           [True, False, False] = Inr \<lparr>Packed = [1, 2], Present = [True, False, False]\<rparr>"
    by code_simp
next
  show "Batch_Expand \<lparr>Packed = [1, 2 :: int], Present = [True, False, False]\<rparr>
           [True, False, True] = Inr \<lparr>Packed = [1, 2, 0, 0], Present = [True, False, True]\<rparr>"
    by code_simp
qed

theorem Batch_Expand_zero_fill_witness:
  "0 < NumPresent \<lparr>Packed = [5, 6 :: int], Present = [False, True, False]\<rparr> \<and>
   mask_subset (Present \<lparr>Packed = [5, 6 :: int], Present = [False, True, False]\<rparr>) [True, True, True] \<and>
   (\<exists>e. Batch_Expand \<lparr>Packed = [5, 6 :: int], Present = [False, True, False]\<rparr> [True, True, True] = Inr e \<and>
        take 2 (drop 4 (Packed e)) = [0, 0] \<and> take 2 (drop 2 (Packed e)) = [5, 6])"
proof -
  let ?b = "\<lparr>Packed = [5, 6 :: int], Present = [False, True, False]\<rparr>"
  let ?p = "[True, True, True]"
  have h1: "0 < NumPresent ?b" by (simp add: NumPresent_def)
  have h2: "mask_subset (Present ?b) ?p" by (simp add: mask_subset_def)
  have w: "per_sequence_width ?b = 2" by code_simp
  have c2: "count_true (take 2 ?p) = 2" by code_simp
  have c1: "count_true (take 1 ?p) = 1" "count_true (take 1 (Present ?b)) = 0" by code_simp+
  from Batch_Expand_zero_fill [OF h1 h2] obtain e where
    e: "Batch_Expand ?b ?p = Inr e"
    and z: "\<forall>i<length ?p. ?p ! i \<and> \<not> Present ?b ! i \<longrightarrow>
               take (per_sequence_width ?b)
                 (drop (per_sequence_width ?b * count_true (take i ?p)) (Packed e)) =
               replicate (per_sequence_width ?b) 0"
    and c: "\<forall>i m. i + m \<le> length ?p \<and> (\<forall>k<m. Present ?b ! (i + k)) \<longrightarrow>
               take (per_sequence_width ?b * m)
                 (drop (per_sequence_width ?b * count_true (take i ?p)) (Packed e)) =
               take (per_sequence_width ?b * m)
                 (drop (per_sequence_width ?b * count_true (take i (Present ?b))) (Packed ?b))"
    by blast
  have r: "replicate 2 (0::int) = [0, 0]" by code_simp
  have "2 < length ?p \<and> ?p ! 2 \<and> \<not> Present ?b ! 2" by simp
  with z have "take (per_sequence_width ?b)
      (drop (per_sequence_width ?b * count_true (take 2 ?p)) (Packed e)) =
      replicate (per_sequence_width ?b) 0"
    by blast
  then have "take 2 (drop (2 * 2) (Packed e)) = replicate 2 0" unfolding w c2 .
  then have "take 2 (drop 4 (Packed e)) = [0, 0]" by (simp add: r)
  moreover
  have "1 + 1 \<le> length ?p \<and> (\<forall>k<1. Present ?b ! (1 + k))" by simp
  with c have "take (per_sequence_width ?b * 1)
      (drop (per_sequence_width ?b * count_true (take 1 ?p)) (Packed e)) =
    take (per_sequence_width ?b * 1)
      (drop (per_sequence_width ?b * count_true (take 1 (Present ?b))) (Packed ?b))"
    by blast
  then have "take 2 (drop 2 (Packed e)) = [5, 6]" unfolding w c1 by simp
  ultimately show ?thesis using h1 h2 e by blast
qed

subsection \<open>Reduce on a sequence\<close>

text \<open>
  Claim C3, as amended. Let the masks of \<open>s.Output()\<close> have as many slots as
  \<open>present\<close>, and let the first timestep whose intersected mask \<open>p_t\<close> has no true
  entry, if there is one, be a batch with at least one present slot. Then
  \<open>Reduce(s, present)\<close> returns a node over \<open>s\<close> whose output has
  \<open>emitted present (Output s)\<close> timesteps: every timestep \<open>t\<close> before that first one,
  in order, and its batch is \<open>Batch.Reduce(s.Output()[t], p_t)\<close>; the timestep with the
  empty \<open>p_t\<close> and all later ones are not emitted. In particular, for the masks
  \<open>[{A,B}, {A,B}, {A}]\<close> and a target mask selecting only \<open>B\<close>, exactly 2 timesteps are
  produced.
\<close>

theorem Reduce_output:
  assumes masks: "\<forall>x\<in>set (Output s). length (Present x) = length present"
    and stop: "emitted present (Output s) < length (Output s) \<longrightarrow>
      0 < NumPresent (Output s ! emitted present (Output s))"
  shows "(\<exists>r. Reduce s present = Inr r \<and> reduceRes.In r = s \<and>
            length (reduceRes.Out r) = emitted present (Output s) \<and>
            (\<forall>t<emitted present (Output s).
               count_true (mask_and present (Present (Output s ! t))) \<noteq> 0 \<and>
               Batch_Reduce (Output s ! t) (mask_and present (Present (Output s ! t))) =
                 Inr (reduceRes.Out r ! t)) \<and>
            (emitted present (Output s) < length (Output s) \<longrightarrow>
               count_true (mask_and present (Present (Output s ! emitted present (Output s)))) = 0)) \<and>
         (\<exists>r. Reduce (ConstSeq [\<lparr>Packed = [1, 2 :: int], Present = [True, True]\<rparr>,
                                \<lparr>Packed = [3, 4], Present = [True, True]\<rparr>,
                                \<lparr>Packed = [5], Present = [True, False]\<rparr>] :: (int list, unit) Seq)
                 [False, True] = Inr r \<and>
              length (reduceRes.Out r) = 2)"
proof
  from masks stop show "\<exists>r. Reduce s present = Inr r \<and> reduceRes.In r = s \<and>
            length (reduceRes.Out r) = emitted present (Output s) \<and>
            (\<forall>t<emitted present (Output s).
               count_true (mask_and present (Present (Output s ! t))) \<noteq> 0 \<and>
               Batch_Reduce (Output s ! t) (mask_and present (Present (Output s ! t))) =
                 Inr (reduceRes.Out r ! t)) \<and>
            (emitted present (Output s) < length (Output s) \<longrightarrow>
               count_true (mask_and present (Present (Output s ! emitted present (Output s)))) = 0)"
    by (rule Reduce_run)
next
  let ?bs = "[\<lparr>Packed = [1, 2 :: int], Present = [True, True]\<rparr>,
              \<lparr>Packed = [3, 4], Present = [True, True]\<rparr>,
              \<lparr>Packed = [5], Present = [True, False]\<rparr>]"
  let ?s = "ConstSeq ?bs :: (int list, unit) Seq"
  have out: "Output ?s = ?bs" by (simp add: ConstSeq_def)
  have em: "emitted [False, True] ?bs = 2" by code_simp
  have m: "\<forall>x\<in>set (Output ?s). length (Present x) = length [False, True]"
    by (simp add: out)
  have st: "emitted [False, True] (Output ?s) < length (Output ?s) \<longrightarrow>
      0 < NumPresent (Output ?s ! emitted [False, True] (Output ?s))"
    unfolding out em by (simp add: NumPresent_def)
  from Reduce_run [OF m st] obtain r where
    r: "Reduce ?s [False, True] = Inr r"
       "length (reduceRes.Out r) = emitted [False, True] (Output ?s)"
    by blast
  with r out em show "\<exists>r. Reduce ?s [False, True] = Inr r \<and> length (reduceRes.Out r) = 2"
    by simp
qed

theorem Reduce_output_witness:
  "list_all (\<lambda>x. length (Present x) = length [True, False])
     (Output (ConstSeq [\<lparr>Packed = [1, 2 :: int], Present = [True, True]\<rparr>,
                        \<lparr>Packed = [3], Present = [False, True]\<rparr>,
                        \<lparr>Packed = [], Present = [False, False]\<rparr>] :: (int list, unit) Seq)) \<and>
   emitted [True, False]
     (Output (ConstSeq [\<lparr>Packed = [1, 2 :: int], Present = [True, True]\<rparr>,
                        \<lparr>Packed = [3], Present = [False, True]\<rparr>,
                        \<lparr>Packed = [], Present = [False, False]\<rparr>] :: (int list, unit) Seq)) = 1 \<and>
   0 < NumPresent \<lparr>Packed = [3 :: int], Present = [False, True]\<rparr> \<and>
   (\<exists>r. Reduce (ConstSeq [\<lparr>Packed = [1, 2 :: int], Present = [True, True]\<rparr>,
                          \<lparr>Packed = [3], Present = [False, True]\<rparr>,
                          \<lparr>Packed = [], Present = [False, False]\<rparr>] :: (int list, unit) Seq)
           [True, False] = Inr r \<and>
        length (reduceRes.Out r) = 1 \<and>
        Batch_Reduce \<lparr>Packed = [1, 2 :: int], Present = [True, True]\<rparr> [True, False] =
          Inr (reduceRes.Out r ! 0))"
proof -
  let ?bs = "[\<lparr>Packed = [1, 2 :: int], Present = [True, True]\<rparr>,
              \<lparr>Packed = [3], Present = [False, True]\<rparr>,
              \<lparr>Packed = [], Present = [False, False]\<rparr>]"
  let ?s = "ConstSeq ?bs :: (int list, unit) Seq"
  have out: "Output ?s = ?bs" by (simp add: ConstSeq_def)
  have h1: "\<forall>x\<in>set (Output ?s). length (Present x) = length [True, False]"
    by (simp add: out)
  have em: "emitted [True, False] (Output ?s) = 1" unfolding out by code_simp
  have np: "0 < NumPresent \<lparr>Packed = [3 :: int], Present = [False, True]\<rparr>"
    by (simp add: NumPresent_def)
  have h2: "emitted [True, False] (Output ?s) < length (Output ?s) \<longrightarrow>
      0 < NumPresent (Output ?s ! emitted [True, False] (Output ?s))"
    unfolding em using np by (simp add: out)
  have m: "mask_and [True, False] (Present (Output ?s ! 0)) = [True, False]"
    unfolding out by code_simp
  from Reduce_output [OF h1 h2] obtain r where
    r: "Reduce ?s [True, False] = Inr r"
       "length (reduceRes.Out r) = emitted [True, False] (Output ?s)"
       "\<forall>t<emitted [True, False] (Output ?s).
               count_true (mask_and [True, False] (Present (Output ?s ! t))) \<noteq> 0 \<and>
               Batch_Reduce (Output ?s ! t) (mask_and [True, False] (Present (Output ?s ! t))) =
                 Inr (reduceRes.Out r ! t)"
    by blast
  from r(3) have "Batch_Reduce (Output ?s ! 0) (mask_and [True, False] (Present (Output ?s ! 0))) =
                 Inr (reduceRes.Out r ! 0)"
    unfolding em by simp
  then have "Batch_Reduce \<lparr>Packed = [1, 2 :: int], Present = [True, True]\<rparr> [True, False] =
          Inr (reduceRes.Out r ! 0)"
    unfolding m by (simp add: out)
  moreover from h1 have "list_all (\<lambda>x. length (Present x) = length [True, False]) (Output ?s)"
    by (simp add: list_all_iff)
  ultimately show ?thesis using r(1,2) em np by auto
qed

text \<open>
  The example of the claim as it was stated, the masks \<open>[{A,B}, {A}, {}]\<close> with a target
  mask that selects both: the third batch has no present sequence, and \<open>Batch.Reduce\<close>
  divides by its \<open>NumPresent()\<close> before the empty result could end the loop.
\<close>

theorem Reduce_empty_batch_counterexample:
  "Reduce (ConstSeq [\<lparr>Packed = [1, 2 :: int], Present = [True, True]\<rparr>,
                     \<lparr>Packed = [3], Present = [True, False]\<rparr>,
                     \<lparr>Packed = [], Present = [False, False]\<rparr>] :: (int list, unit) Seq)
     [True, True] = Inl DivideByZero"
proof -
  have "Reduce_steps [True, True]
      [\<lparr>Packed = [1, 2 :: int], Present = [True, True]\<rparr>,
       \<lparr>Packed = [3], Present = [True, False]\<rparr>,
       \<lparr>Packed = [], Present = [False, False]\<rparr>] [] = Inl DivideByZero"
    by code_simp
  then show ?thesis by (simp add: Reduce_def ConstSeq_def)
qed

subsection \<open>Propagate of the Reduce node\<close>

text \<open>
  Claim C2. \<open>reduceRes_newU r u\<close> is the list that \<open>Propagate(u, grad)\<close> of the node
  \<open>r\<close> hands to the \<open>Propagate\<close> of its input, or the abort before that call.
  Whenever a list is handed over, it has one entry for every timestep of the input's output:
  entry \<open>t < len(u)\<close> is \<open>Expand(u[t], Output()[t].Present)\<close>, and every later entry has
  the mask of the input's \<open>Output()[t]\<close> and a packed vector of zeros of the length of
  \<open>Output()[t].Packed\<close>. A list is handed over when \<open>r\<close> is the node that
  \<open>Reduce(s, present)\<close> returns, the masks of \<open>s\<close> having as many slots as
  \<open>present\<close>, and \<open>u\<close> holds one batch for every timestep of the node's output, of
  that output's shape; the input of \<open>r\<close> is then \<open>s\<close>.
\<close>

theorem reduceRes_Propagate_shape:
  "(\<forall>newU. reduceRes_newU r u = Inr newU \<longrightarrow>
      (\<forall>grad. reduceRes_Propagate r u grad = Propagate (reduceRes.In r) newU grad) \<and>
      length newU = length (Output (reduceRes.In r)) \<and>
      (\<forall>t<length u.
         Batch_Expand (u ! t) (Present (Output (reduceRes.In r) ! t)) = Inr (newU ! t)) \<and>
      (\<forall>t. length u \<le> t \<and> t < length (Output (reduceRes.In r)) \<longrightarrow>
         newU ! t = \<lparr>Packed = replicate (length (Packed (Output (reduceRes.In r) ! t))) 0,
                     Present = Present (Output (reduceRes.In r) ! t)\<rparr>)) \<and>
   (\<forall>e. reduceRes_newU r u = Inl e \<longrightarrow> (\<forall>grad. reduceRes_Propagate r u grad = Inl e)) \<and>
   (Reduce s present = Inr r \<and>
    (\<forall>x\<in>set (Output s). length (Present x) = length present) \<and>
    length u = length (reduceRes.Out r) \<and>
    (\<forall>t<length u. Present (u ! t) = Present (reduceRes.Out r ! t) \<and>
                   length (Packed (u ! t)) = length (Packed (reduceRes.Out r ! t))) \<longrightarrow>
    reduceRes.In r = s \<and> (\<exists>newU. reduceRes_newU r u = Inr newU))"
proof -
  have shape: "\<forall>newU. reduceRes_newU r u = Inr newU \<longrightarrow>
      (\<forall>grad. reduceRes_Propagate r u grad = Propagate (reduceRes.In r) newU grad) \<and>
      length newU = length (Output (reduceRes.In r)) \<and>
      (\<forall>t<length u.
         Batch_Expand (u ! t) (Present (Output (reduceRes.In r) ! t)) = Inr (newU ! t)) \<and>
      (\<forall>t. length u \<le> t \<and> t < length (Output (reduceRes.In r)) \<longrightarrow>
         newU ! t = \<lparr>Packed = replicate (length (Packed (Output (reduceRes.In r) ! t))) 0,
                     Present = Present (Output (reduceRes.In r) ! t)\<rparr>)"
    using reduceRes_newU_sound [of r u] by blast
  have abort: "\<forall>e. reduceRes_newU r u = Inl e \<longrightarrow>
      (\<forall>grad. reduceRes_Propagate r u grad = Inl e)"
    by (simp add: reduceRes_Propagate_def)
  have total: "Reduce s present = Inr r \<and>
    (\<forall>x\<in>set (Output s). length (Present x) = length present) \<and>
    length u = length (reduceRes.Out r) \<and>
    (\<forall>t<length u. Present (u ! t) = Present (reduceRes.Out r ! t) \<and>
                   length (Packed (u ! t)) = length (Packed (reduceRes.Out r ! t))) \<longrightarrow>
    reduceRes.In r = s \<and> (\<exists>newU. reduceRes_newU r u = Inr newU)"
  proof
    assume a: "Reduce s present = Inr r \<and>
      (\<forall>x\<in>set (Output s). length (Present x) = length present) \<and>
      length u = length (reduceRes.Out r) \<and>
      (\<forall>t<length u. Present (u ! t) = Present (reduceRes.Out r ! t) \<and>
                     length (Packed (u ! t)) = length (Packed (reduceRes.Out r ! t)))"
    then have "\<forall>t<length u. Present (u ! t) = Present (reduceRes.Out r ! t)" by blast
    with a show "reduceRes.In r = s \<and> (\<exists>newU. reduceRes_newU r u = Inr newU)"
      by (intro reduceRes_newU_total [of s present r u]) blast+
  qed
  show ?thesis by (rule conjI [OF shape conjI [OF abort total]])
qed

theorem reduceRes_Propagate_shape_witness:
  "Reduce (ConstSeq [\<lparr>Packed = [1, 2 :: int], Present = [True, True]\<rparr>,
                     \<lparr>Packed = [3], Present = [False, True]\<rparr>] :: (int list, unit) Seq)
     [True, False] =
     Inr \<lparr>reduceRes.In = ConstSeq [\<lparr>Packed = [1, 2 :: int], Present = [True, True]\<rparr>,
                                    \<lparr>Packed = [3], Present = [False, True]\<rparr>],
          reduceRes.Out = [\<lparr>Packed = [1], Present = [True, False]\<rparr>]\<rparr> \<and>
   (\<exists>newU. reduceRes_newU
        \<lparr>reduceRes.In = (ConstSeq [\<lparr>Packed = [1, 2 :: int], Present = [True, True]\<rparr>,
                                    \<lparr>Packed = [3], Present = [False, True]\<rparr>] :: (int list, unit) Seq),
         reduceRes.Out = [\<lparr>Packed = [1], Present = [True, False]\<rparr>]\<rparr>
        [\<lparr>Packed = [9], Present = [True, False]\<rparr>] = Inr newU \<and>
      length newU = 2 \<and>
      Batch_Expand \<lparr>Packed = [9], Present = [True, False]\<rparr> [True, True] = Inr (newU ! 0) \<and>
      newU ! 1 = \<lparr>Packed = [0], Present = [False, True]\<rparr>)"
proof -
  let ?bs = "[\<lparr>Packed = [1, 2 :: int], Present = [True, True]\<rparr>,
              \<lparr>Packed = [3], Present = [False, True]\<rparr>]"
  let ?s = "ConstSeq ?bs :: (int list, unit) Seq"
  let ?r = "\<lparr>reduceRes.In = ?s, reduceRes.Out = [\<lparr>Packed = [1 :: int], Present = [True, False]\<rparr>]\<rparr>"
  let ?u = "[\<lparr>Packed = [9 :: int], Present = [True, False]\<rparr>]"
  have out: "Output ?s = ?bs" by (simp add: ConstSeq_def)
  have "Reduce_steps [True, False] ?bs [] = Inr [\<lparr>Packed = [1], Present = [True, False]\<rparr>]"
    by code_simp
  then have h1: "Reduce ?s [True, False] = Inr ?r" by (simp add: Reduce_def out)
  have h2: "\<forall>x\<in>set (Output ?s). length (Present x) = length [True, False]" by (simp add: out)
  have h3: "length ?u = length (reduceRes.Out ?r)" by simp
  have h4: "\<forall>t<length ?u. Present (?u ! t) = Present (reduceRes.Out ?r ! t) \<and>
                   length (Packed (?u ! t)) = length (Packed (reduceRes.Out ?r ! t))"
    by simp
  from reduceRes_Propagate_shape [of ?r ?u ?s "[True, False]"] h1 h2 h3 h4
  obtain newU where n0: "reduceRes_newU ?r ?u = Inr newU" by blast
  with reduceRes_Propagate_shape [of ?r ?u ?s "[True, False]"] have
    n: "reduceRes_newU ?r ?u = Inr newU" "length newU = length (Output ?s)"
      "\<forall>t<length ?u. Batch_Expand (?u ! t) (Present (Output ?s ! t)) = Inr (newU ! t)"
      "\<forall>t. length ?u \<le> t \<and> t < length (Output ?s) \<longrightarrow>
         newU ! t = \<lparr>Packed = replicate (length (Packed (Output ?s ! t))) 0,
                     Present = Present (Output ?s ! t)\<rparr>"
    by simp_all
  from n(2) have l: "length newU = 2" by (simp add: out)
  from n(3) have e: "Batch_Expand \<lparr>Packed = [9], Present = [True, False]\<rparr> [True, True] = Inr (newU ! 0)"
    by (simp add: out)
  from n(4) [rule_format, of 1] have z: "newU ! 1 = \<lparr>Packed = [0], Present = [False, True]\<rparr>"
    by (simp add: out)
  from h1 n(1) l e z show ?thesis by blast
qed

subsection \<open>Prune\<close>

text \<open>
  Claim C7. If \<open>s.Output()\<close> has no timestep, \<open>Prune(s)\<close> returns \<open>s\<close> itself.
  Otherwise every sequence that \<open>Prune(s)\<close> returns has as many timesteps as \<open>s\<close>,
  and its batch at \<open>t\<close> has the packed vector of \<open>s.Output()[t]\<close> and, as its mask, the
  values \<open>s.Output()[t].Present[j]\<close> for the \<open>j\<close>, in order, with
  \<open>s.Output()[0].Present[j]\<close> true; and \<open>Prune(s)\<close> does return a sequence when every
  slot kept at timestep 0 is a slot of every timestep's mask, so that these \<open>Present[j]\<close>
  exist. The vector type is arbitrary here: \<open>Prune\<close> applies no operation to a packed
  vector, so for vectors that are object references the batch holds the same reference.
\<close>

theorem Prune_output:
  "(Output s = [] \<longrightarrow> Prune s = Inr s) \<and>
   (Output s \<noteq> [] \<longrightarrow>
      (\<forall>q. Prune s = Inr q \<longrightarrow>
         length (Output q) = length (Output s) \<and>
         (\<forall>t<length (Output s).
            Packed (Output q ! t) = Packed (Output s ! t) \<and>
            Present (Output q ! t) =
              map (\<lambda>j. Present (Output s ! t) ! j) (kept_slots (Present (Output s ! 0)))))) \<and>
   (Output s \<noteq> [] \<and>
    (\<forall>x\<in>set (Output s). \<forall>j\<in>set (kept_slots (Present (Output s ! 0))). j < length (Present x)) \<longrightarrow>
      (\<exists>q. Prune s = Inr q))"
proof -
  have empty: "Output s = [] \<longrightarrow> Prune s = Inr s" by (simp add: Prune_def)
  have shape: "Output s \<noteq> [] \<longrightarrow>
      (\<forall>q. Prune s = Inr q \<longrightarrow>
         length (Output q) = length (Output s) \<and>
         (\<forall>t<length (Output s).
            Packed (Output q ! t) = Packed (Output s ! t) \<and>
            Present (Output q ! t) =
              map (\<lambda>j. Present (Output s ! t) ! j) (kept_slots (Present (Output s ! 0)))))"
    using Prune_sound [of s] by blast
  have total: "Output s \<noteq> [] \<and>
    (\<forall>x\<in>set (Output s). \<forall>j\<in>set (kept_slots (Present (Output s ! 0))). j < length (Present x)) \<longrightarrow>
      (\<exists>q. Prune s = Inr q)"
    using Prune_run [of s] by blast
  show ?thesis by (rule conjI [OF empty conjI [OF shape total]])
qed

theorem Prune_output_witness:
  "Output (ConstSeq [] :: (nat, unit) Seq) = [] \<and>
   Prune (ConstSeq [] :: (nat, unit) Seq) = Inr (ConstSeq []) \<and>
   Output (ConstSeq [\<lparr>Packed = 10 :: nat, Present = [True, False, True]\<rparr>,
                     \<lparr>Packed = 11, Present = [False, False, True]\<rparr>] :: (nat, unit) Seq) \<noteq> [] \<and>
   (\<exists>q. Prune (ConstSeq [\<lparr>Packed = 10 :: nat, Present = [True, False, True]\<rparr>,
                         \<lparr>Packed = 11, Present = [False, False, True]\<rparr>] :: (nat, unit) Seq) = Inr q \<and>
        length (Output q) = 2 \<and>
        Packed (Output q ! 1) = 11 \<and> Present (Output q ! 1) = [False, True])"
proof -
  let ?e = "ConstSeq [] :: (nat, unit) Seq"
  let ?bs = "[\<lparr>Packed = 10 :: nat, Present = [True, False, True]\<rparr>,
              \<lparr>Packed = 11, Present = [False, False, True]\<rparr>]"
  let ?s = "ConstSeq ?bs :: (nat, unit) Seq"
  have e: "Output ?e = []" by (simp add: ConstSeq_def)
  with Prune_output [of ?e] have pe: "Prune ?e = Inr ?e" by blast
  have out: "Output ?s = ?bs" by (simp add: ConstSeq_def)
  have k: "kept_slots [True, False, True] = [0, 2]" by code_simp
  have ne: "Output ?s \<noteq> []" by (simp add: out)
  have cover: "\<forall>x\<in>set (Output ?s). \<forall>j\<in>set (kept_slots (Present (Output ?s ! 0))). j < length (Present x)"
    by (simp add: out k)
  from Prune_output [of ?s] ne cover obtain q where q1: "Prune ?s = Inr q" by blast
  with Prune_output [of ?s] ne have
    q: "Prune ?s = Inr q" "length (Output q) = length (Output ?s)"
      "\<forall>t<length (Output ?s).
            Packed (Output q ! t) = Packed (Output ?s ! t) \<and>
            Present (Output q ! t) =
              map (\<lambda>j. Present (Output ?s ! t) ! j) (kept_slots (Present (Output ?s ! 0)))"
    by blast+
  from q(2) have l: "length (Output q) = 2" by (simp add: out)
  from q(3) [rule_format, of 1] have "Packed (Output q ! 1) = 11 \<and> Present (Output q ! 1) = [False, True]"
    by (simp add: out k)
  with e pe ne q(1) l show ?thesis by blast
qed

text \<open>
  Claim C8. Let \<open>s\<close> be a non-empty sequence whose masks all have the same number of
  slots, every slot being present at the first timestep. Then every batch of the output of
  \<open>Prune(s)\<close> has the mask of the same timestep of \<open>s.Output()\<close>, entry for entry.
\<close>

theorem Prune_already_pruned:
  assumes ne: "Output s \<noteq> []"
    and full: "\<forall>p\<in>set (Present (Output s ! 0)). p"
    and masks: "\<forall>x\<in>set (Output s). length (Present x) = length (Present (Output s ! 0))"
  shows "\<exists>q. Prune s = Inr q \<and> length (Output q) = length (Output s) \<and>
           (\<forall>t<length (Output s). Present (Output q ! t) = Present (Output s ! t))"
proof -
  let ?first = "Present (Output s ! 0)"
  have k: "kept_slots ?first = [0..<length ?first]"
    using full by (rule kept_slots_all)
  have cover: "\<forall>x\<in>set (Output s). \<forall>j\<in>set (kept_slots ?first). j < length (Present x)"
    using masks by (simp add: k)
  from Prune_run [OF ne cover] obtain q where
    q: "Prune s = Inr q" "length (Output q) = length (Output s)"
      "\<forall>t<length (Output s). Present (Output q ! t) =
          map (\<lambda>j. Present (Output s ! t) ! j) (kept_slots ?first)"
    by blast
  have "\<forall>t<length (Output s). Present (Output q ! t) = Present (Output s ! t)"
  proof (intro allI impI)
    fix t assume t: "t < length (Output s)"
    with masks have l: "length ?first = length (Present (Output s ! t))" by simp
    have "map (\<lambda>j. Present (Output s ! t) ! j) [0..<length (Present (Output s ! t))] =
        Present (Output s ! t)"
      by (rule map_nth)
    with q(3) t show "Present (Output q ! t) = Present (Output s ! t)"
      by (simp add: k l)
  qed
  with q(1,2) show ?thesis by blast
qed

theorem Prune_already_pruned_witness:
  "Output (ConstSeq [\<lparr>Packed = 10 :: nat, Present = [True, True]\<rparr>,
                     \<lparr>Packed = 11, Present = [False, True]\<rparr>] :: (nat, unit) Seq) \<noteq> [] \<and>
   (\<exists>q. Prune (ConstSeq [\<lparr>Packed = 10 :: nat, Present = [True, True]\<rparr>,
                         \<lparr>Packed = 11, Present = [False, True]\<rparr>] :: (nat, unit) Seq) = Inr q \<and>
        Present (Output q ! 0) = [True, True] \<and> Present (Output q ! 1) = [False, True])"
proof -
  let ?bs = "[\<lparr>Packed = 10 :: nat, Present = [True, True]\<rparr>,
              \<lparr>Packed = 11, Present = [False, True]\<rparr>]"
  let ?s = "ConstSeq ?bs :: (nat, unit) Seq"
  have out: "Output ?s = ?bs" by (simp add: ConstSeq_def)
  have h1: "Output ?s \<noteq> []" by (simp add: out)
  have h2: "\<forall>p\<in>set (Present (Output ?s ! 0)). p" by (simp add: out)
  have h3: "\<forall>x\<in>set (Output ?s). length (Present x) = length (Present (Output ?s ! 0))"
    by (simp add: out)
  from Prune_already_pruned [OF h1 h2 h3] obtain q where
    q: "Prune ?s = Inr q" "\<forall>t<length (Output ?s). Present (Output q ! t) = Present (Output ?s ! t)"
    by blast
  from q(2) [rule_format, of 0] q(2) [rule_format, of 1]
  have "Present (Output q ! 0) = [True, True] \<and> Present (Output q ! 1) = [False, True]"
    by (simp add: out)
  with h1 q(1) show ?thesis by blast
qed

end
